theory Spec2Isabelle
  imports Main
begin

section \<open>The process-wise report of \<open>src/app/api/reports/download/route.ts\<close>\<close>

text \<open>
  The development embeds the \<open>processWise\<close> branch of the \<open>GET\<close> handler: the grouping of
  the fetched jobs, the pairing of ON and OFF jobs of a group, the rows for unmatched ON
  jobs, the merge of equal rows and the fallback rows of the worksheet.

  Conventions of the embedding.
  \<^item> A number is an \<open>int\<close>: the quantities and keys of the store are integers.
  \<^item> A \<open>Date\<close> is its time value, an \<open>int\<close> of milliseconds since the epoch. Only valid
    dates are modelled.
  \<^item> The local time zone of the server is a parameter \<open>tz\<close>: the offset from UTC, in
    minutes, at an instant. Offsets are whole minutes.
  \<^item> \<open>productId\<close> and \<open>machineId\<close> are integer keys. The cell \<open>productId\<close> of a row
    holds a string or a number, as in the code: a \<open>cell\<close>.
  \<^item> A field that may be \<open>null\<close> or \<open>undefined\<close> is an \<open>option\<close>: the relations
    \<open>machine\<close> and \<open>product\<close>, \<open>updatedAt\<close> and \<open>quantity\<close> (the fallback path reads it as
    \<open>job.quantity || 1\<close>).
  \<^item> Reading \<open>.name\<close> of a missing relation throws a \<open>TypeError\<close>; functions that can
    reach such a read return \<open>error + 'a\<close>.
\<close>

subsection \<open>Numbers and text\<close>

definition digit_char :: "nat \<Rightarrow> char" where
  "digit_char d = char_of (48 + d)"

function show_nat :: "nat \<Rightarrow> string" where
  "show_nat n = (if n < 10 then [digit_char n] else show_nat (n div 10) @ [digit_char (n mod 10)])"
  by pat_completeness auto
termination
  by (relation "measure id") auto

declare show_nat.simps [simp del]

text \<open>\<open>Number.prototype.toString\<close> and string conversion of an integer.\<close>

definition toString :: "int \<Rightarrow> string" where
  "toString i = (if i < 0 then CHR ''-'' # show_nat (nat (- i)) else show_nat (nat i))"

text \<open>\<open>String.prototype.padStart\<close> with a one-character filler.\<close>

definition padStart :: "nat \<Rightarrow> char \<Rightarrow> string \<Rightarrow> string" where
  "padStart w c s = replicate (w - length s) c @ s"

definition pad2 :: "int \<Rightarrow> string" where
  "pad2 n = padStart 2 CHR ''0'' (toString n)"

text \<open>\<open>Array.prototype.join\<close> on an array of strings.\<close>

fun join :: "string \<Rightarrow> string list \<Rightarrow> string" where
  "join sep [] = []"
| "join sep [x] = x"
| "join sep (x # y # ys) = x @ sep @ join sep (y # ys)"

subsection \<open>Dates\<close>

type_synonym zone = "int \<Rightarrow> int"

text \<open>
  \<open>date.setSeconds(0, 0)\<close>: the instant at the start of the minute. The offset of the
  zone is a whole number of minutes, so the result does not depend on the zone.
\<close>

definition setSeconds0 :: "int \<Rightarrow> int" where
  "setSeconds0 t = t - t mod 60000"

definition localTime :: "zone \<Rightarrow> int \<Rightarrow> int" where
  "localTime tz t = t + 60000 * tz t"

definition getHours :: "zone \<Rightarrow> int \<Rightarrow> int" where
  "getHours tz t = (localTime tz t div 3600000) mod 24"

definition getMinutes :: "zone \<Rightarrow> int \<Rightarrow> int" where
  "getMinutes tz t = (localTime tz t div 60000) mod 60"

text \<open>
  The template
  \<open>`${d.getHours().toString().padStart(2, '0')}:${d.getMinutes().toString().padStart(2, '0')}`\<close>.
\<close>

definition hhmm :: "zone \<Rightarrow> int \<Rightarrow> string" where
  "hhmm tz t = pad2 (getHours tz t) @ '':'' @ pad2 (getMinutes tz t)"

text \<open>Year, month and day (UTC) of a day number counted from 1970-01-01.\<close>

definition civil :: "int \<Rightarrow> int \<times> int \<times> int" where
  "civil days =
    (let z = days + 719468;
         era = z div 146097;
         doe = z - era * 146097;
         yoe = (doe - doe div 1460 + doe div 36524 - doe div 146096) div 365;
         doy = doe - (365 * yoe + yoe div 4 - yoe div 100);
         mp = (5 * doy + 2) div 153;
         d = doy - (153 * mp + 2) div 5 + 1;
         m = (if mp < 10 then mp + 3 else mp - 9);
         y = yoe + era * 400 + (if m \<le> 2 then 1 else 0)
     in (y, m, d))"

definition isoYear :: "int \<Rightarrow> string" where
  "isoYear y =
    (if 0 \<le> y \<and> y \<le> 9999 then padStart 4 CHR ''0'' (toString y)
     else (if y < 0 then ''-'' else ''+'') @ padStart 6 CHR ''0'' (toString \<bar>y\<bar>))"

text \<open>\<open>date.toISOString().split('T')[0]\<close>.\<close>

definition isoDate :: "int \<Rightarrow> string" where
  "isoDate t =
    (case civil (t div 86400000) of
       (y, m, d) \<Rightarrow> isoYear y @ ''-'' @ pad2 m @ ''-'' @ pad2 d)"

text \<open>
  \<open>Math.round((offTime.getTime() - onTime.getTime()) / 60000)\<close> on a difference \<open>d\<close> of
  milliseconds: the nearest integer, a half rounded up.
\<close>

definition roundMinutes :: "int \<Rightarrow> int" where
  "roundMinutes d = (d + 30000) div 60000"

subsection \<open>Jobs and rows\<close>

datatype error = TypeError

record machine =
  name :: string

record product =
  name :: string

record job =
  productId :: int
  machineId :: int
  state :: string
  quantity :: "int option"
  createdAt :: int
  updatedAt :: "int option"
  machine :: "machine option"
  product :: "product option"

text \<open>The copy \<open>{...j, remaining: j.quantity}\<close> of a job.\<close>

record pjob = job +
  remaining :: "int option"

definition with_remaining :: "job \<Rightarrow> pjob" where
  "with_remaining j = job.extend j (pjob.fields (job.quantity j))"

text \<open>
  A row of the worksheet. The cell \<open>productId\<close> holds the name of the product (a
  string) or its key (a number). \<open>totalTime\<close> is a number or the empty string (\<open>None\<close>).
\<close>

datatype cell = Str string | Num int

record row =
  productId :: cell
  quantity :: int
  machineNumber :: string
  date :: string
  onTime :: string
  offTime :: string
  totalTime :: "int option"

subsection \<open>\<open>getMachineNumber\<close>\<close>

definition is_digit :: "char \<Rightarrow> bool" where
  "is_digit c = (c \<in> set ''0123456789'')"

text \<open>The capture of the leftmost match of \<open>/#(\d+)/\<close>.\<close>

fun match_hash_digits :: "string \<Rightarrow> string option" where
  "match_hash_digits [] = None"
| "match_hash_digits (c # cs) =
    (if c = CHR ''#'' \<and> takeWhile is_digit cs \<noteq> [] then Some (takeWhile is_digit cs)
     else match_hash_digits cs)"

text \<open>The capture of the match of \<open>/(\d+)$/\<close>: the digits that end the string.\<close>

definition match_last_digits :: "string \<Rightarrow> string option" where
  "match_last_digits s =
    (let ds = rev (takeWhile is_digit (rev s)) in if ds = [] then None else Some ds)"

definition getMachineNumber :: "string option \<Rightarrow> string" where
  "getMachineNumber machineName =
    (case machineName of
       None \<Rightarrow> ''''
     | Some n \<Rightarrow>
        (if n = '''' then ''''
         else case match_hash_digits n of
                Some d \<Rightarrow> d
              | None \<Rightarrow> (case match_last_digits n of Some d \<Rightarrow> d | None \<Rightarrow> '''')))"

subsection \<open>Grouping\<close>

text \<open>The key \<open>`${job.productId}__${job.machineId}`\<close>.\<close>

definition job_key :: "job \<Rightarrow> string" where
  "job_key j = toString (job.productId j) @ ''__'' @ toString (job.machineId j)"

text \<open>
  \<open>jobGroups\<close> is an object used as a dictionary. Its keys start with a digit or a sign
  and hold \<open>__\<close>, so none is an array index or a property of \<open>Object.prototype\<close>, and
  \<open>Object.values\<close> lists the groups in the order their keys were added: an association
  list. One call of the callback of \<open>jobs.forEach\<close> (lines 118 to 128) is \<open>add_job\<close>.
\<close>

fun push_job :: "(string \<times> job list) list \<Rightarrow> string \<Rightarrow> job \<Rightarrow> (string \<times> job list) list" where
  "push_job [] k j = [(k, [j])]"
| "push_job ((k', g) # gs) k j =
    (if k' = k then (k', g @ [j]) # gs else (k', g) # push_job gs k j)"

definition add_job :: "(string \<times> job list) list \<Rightarrow> job \<Rightarrow> (string \<times> job list) list" where
  "add_job gs j =
    (if job.product j = None \<or> job.machine j = None then gs else push_job gs (job_key j) j)"

definition jobGroups :: "job list \<Rightarrow> (string \<times> job list) list" where
  "jobGroups jobs = foldl add_job [] jobs"

subsection \<open>Pairing ON and OFF jobs of a group\<close>

text \<open>
  The label \<open>onJob.product.name || onJob.productId\<close> of a row: the name unless it is
  empty, else the key.
\<close>

definition label :: "product \<Rightarrow> int \<Rightarrow> cell" where
  "label p pid = (if product.name p \<noteq> '''' then Str (product.name p) else Num pid)"

text \<open>\<open>offJob.updatedAt || offJob.createdAt\<close>: a \<open>Date\<close> object is truthy.\<close>

definition closeTime :: "'a job_scheme \<Rightarrow> int" where
  "closeTime offJob = (case job.updatedAt offJob of Some u \<Rightarrow> u | None \<Rightarrow> job.createdAt offJob)"

text \<open>The row pushed for a pair (lines 147 to 165).\<close>

definition matched_row :: "zone \<Rightarrow> pjob \<Rightarrow> pjob \<Rightarrow> int \<Rightarrow> error + row" where
  "matched_row tz onJob offJob pairQty =
    (let onT = setSeconds0 (job.createdAt onJob);
         offT = setSeconds0 (closeTime offJob);
         dateStr = isoDate onT
     in case job.machine onJob of
          None \<Rightarrow> Inl TypeError
        | Some m \<Rightarrow>
           (let machineNo = getMachineNumber (Some (machine.name m));
                onTimeStr = hhmm tz onT;
                offTimeStr = hhmm tz offT;
                total = roundMinutes (offT - onT)
            in case job.product onJob of
                 None \<Rightarrow> Inl TypeError
               | Some p \<Rightarrow>
                  Inr \<lparr>row.productId = label p (job.productId onJob),
                       row.quantity = pairQty,
                       machineNumber = machineNo,
                       date = dateStr,
                       onTime = onTimeStr,
                       offTime = offTimeStr,
                       totalTime = (if total \<noteq> 0 then Some total else None)\<rparr>))"

text \<open>The row pushed for an ON job that is left with a remainder (lines 189 to 203).\<close>

definition unmatched_row :: "zone \<Rightarrow> pjob \<Rightarrow> int \<Rightarrow> error + row" where
  "unmatched_row tz onJob rest =
    (let onT = setSeconds0 (job.createdAt onJob);
         dateStr = isoDate onT
     in case job.machine onJob of
          None \<Rightarrow> Inl TypeError
        | Some m \<Rightarrow>
           (let machineNo = getMachineNumber (Some (machine.name m));
                onTimeStr = hhmm tz onT
            in case job.product onJob of
                 None \<Rightarrow> Inl TypeError
               | Some p \<Rightarrow>
                  Inr \<lparr>row.productId = label p (job.productId onJob),
                       row.quantity = rest,
                       machineNumber = machineNo,
                       date = dateStr,
                       onTime = onTimeStr,
                       offTime = '''',
                       totalTime = None\<rparr>))"

text \<open>
  The state of the \<open>while\<close> loop of one group: the two arrays of copies, the two indices
  and the rows pushed so far for the group.
\<close>

record pstate =
  onJobs :: "pjob list"
  offJobs :: "pjob list"
  onIdx :: nat
  offIdx :: nat
  pushed :: "row list"

text \<open>
  \<open>Math.min(onJob.remaining, offJob.remaining)\<close>. With a missing operand the result is
  \<open>NaN\<close> or at most 0: it fails the test \<open>pairQty > 0\<close>, the only use the loop makes of
  it then. \<open>None\<close> stands for such a result.
\<close>

definition math_min :: "int option \<Rightarrow> int option \<Rightarrow> int option" where
  "math_min a b = (case (a, b) of (Some x, Some y) \<Rightarrow> Some (min x y) | _ \<Rightarrow> None)"

text \<open>\<open>job.remaining -= q\<close>.\<close>

definition take_off :: "int \<Rightarrow> pjob \<Rightarrow> pjob" where
  "take_off q j = j\<lparr>remaining := map_option (\<lambda>r. r - q) (remaining j)\<rparr>"

text \<open>The block \<open>if (pairQty > 0) { ... }\<close> of an iteration (lines 137 to 168).\<close>

definition pair_emit :: "zone \<Rightarrow> pstate \<Rightarrow> error + pstate" where
  "pair_emit tz s =
    (let onJob = onJobs s ! onIdx s;
         offJob = offJobs s ! offIdx s
     in case math_min (remaining onJob) (remaining offJob) of
          None \<Rightarrow> Inr s
        | Some pairQty \<Rightarrow>
           (if 0 < pairQty then
              (case matched_row tz onJob offJob pairQty of
                 Inl e \<Rightarrow> Inl e
               | Inr r \<Rightarrow>
                  Inr (s\<lparr>onJobs := (onJobs s)[onIdx s := take_off pairQty onJob],
                          offJobs := (offJobs s)[offIdx s := take_off pairQty offJob],
                          pushed := pushed s @ [r]\<rparr>))
            else Inr s))"

datatype outcome = Continue pstate | Break pstate

text \<open>The chain of tests that ends an iteration (lines 170 to 179).\<close>

definition pair_advance :: "pstate \<Rightarrow> outcome" where
  "pair_advance s =
    (let onJob = onJobs s ! onIdx s;
         offJob = offJobs s ! offIdx s
     in if remaining onJob = Some 0 \<and> remaining offJob = Some 0 then
          Continue (s\<lparr>onIdx := onIdx s + 1, offIdx := offIdx s + 1\<rparr>)
        else if remaining onJob = Some 0 then Continue (s\<lparr>onIdx := onIdx s + 1\<rparr>)
        else if remaining offJob = Some 0 then Continue (s\<lparr>offIdx := offIdx s + 1\<rparr>)
        else Break s)"

definition pair_step :: "zone \<Rightarrow> pstate \<Rightarrow> error + outcome" where
  "pair_step tz s = (case pair_emit tz s of Inl e \<Rightarrow> Inl e | Inr s1 \<Rightarrow> Inr (pair_advance s1))"

text \<open>The condition of the \<open>while\<close> loop, and the number of jobs not yet passed.\<close>

definition loop_cond :: "pstate \<Rightarrow> bool" where
  "loop_cond s = (onIdx s < length (onJobs s) \<and> offIdx s < length (offJobs s))"

definition loop_size :: "pstate \<Rightarrow> nat" where
  "loop_size s = (length (onJobs s) - onIdx s) + (length (offJobs s) - offIdx s)"

text \<open>How the \<open>while\<close> loop was left: its condition failed, or by \<open>break\<close>.\<close>

datatype exit = Exhausted | Broke

function pair_loop :: "zone \<Rightarrow> pstate \<Rightarrow> error + (exit \<times> pstate)" where
  "pair_loop tz s =
    (if loop_cond s then
       (case pair_step tz s of
          Inl e \<Rightarrow> Inl e
        | Inr (Break s') \<Rightarrow> Inr (Broke, s')
        | Inr (Continue s') \<Rightarrow> pair_loop tz s')
     else Inr (Exhausted, s))"
  by pat_completeness auto
termination
proof (relation "measure (\<lambda>(tz, s). loop_size s)")
  fix tz :: zone and s s' :: pstate and x
  assume c: "loop_cond s" and st: "pair_step tz s = Inr x" and x: "x = Continue s'"
  from st x obtain s1 where e: "pair_emit tz s = Inr s1" and a: "pair_advance s1 = Continue s'"
    by (auto simp: pair_step_def split: sum.splits)
  from e have "length (onJobs s1) = length (onJobs s) \<and> length (offJobs s1) = length (offJobs s)
      \<and> onIdx s1 = onIdx s \<and> offIdx s1 = offIdx s"
    by (auto simp: pair_emit_def Let_def split: if_splits sum.splits option.splits)
  with c a have "loop_size s' < loop_size s"
    by (auto simp: pair_advance_def loop_cond_def loop_size_def Let_def split: if_splits)
  then show "((tz, s'), (tz, s)) \<in> measure (\<lambda>(tz, s). loop_size s)"
    by simp
qed simp

declare pair_loop.simps [simp del]

text \<open>The loop \<open>for (; onIdx < onJobs.length; onIdx++)\<close> over the ON jobs that are left.\<close>

fun leftover :: "zone \<Rightarrow> pjob list \<Rightarrow> row list \<Rightarrow> error + row list" where
  "leftover tz [] rows = Inr rows"
| "leftover tz (onJob # rest) rows =
    (case remaining onJob of
       None \<Rightarrow> leftover tz rest rows
     | Some n \<Rightarrow>
        (if 0 < n then
           (case unmatched_row tz onJob n of
              Inl e \<Rightarrow> Inl e
            | Inr r \<Rightarrow> leftover tz rest (rows @ [r]))
         else leftover tz rest rows))"

text \<open>
  The callback of \<open>Object.values(jobGroups).forEach\<close> (lines 131 to 205). The sort of
  \<open>Array.prototype.sort\<close> is stable, as \<open>sort_key\<close> is. The result holds the rows the
  callback pushes to \<open>allRows\<close>.
\<close>

definition init_state :: "job list \<Rightarrow> pstate" where
  "init_state grp =
    (let sorted = sort_key job.createdAt grp
     in \<lparr>onJobs = map with_remaining (filter (\<lambda>j. job.state j = ''ON'') sorted),
         offJobs = map with_remaining (filter (\<lambda>j. job.state j = ''OFF'') sorted),
         onIdx = 0, offIdx = 0, pushed = []\<rparr>)"

definition reconcile_group :: "zone \<Rightarrow> job list \<Rightarrow> error + row list" where
  "reconcile_group tz grp =
    (case pair_loop tz (init_state grp) of
       Inl e \<Rightarrow> Inl e
     | Inr (ex, s) \<Rightarrow> leftover tz (drop (onIdx s) (onJobs s)) (pushed s))"

text \<open>\<open>allRows\<close> after the \<open>forEach\<close>: the rows of the groups, one group after the other.\<close>

fun forEach_group :: "zone \<Rightarrow> job list list \<Rightarrow> row list \<Rightarrow> error + row list" where
  "forEach_group tz [] allRows = Inr allRows"
| "forEach_group tz (g # gs) allRows =
    (case reconcile_group tz g of
       Inl e \<Rightarrow> Inl e
     | Inr rs \<Rightarrow> forEach_group tz gs (allRows @ rs))"

definition all_rows :: "zone \<Rightarrow> job list \<Rightarrow> error + row list" where
  "all_rows tz jobs = forEach_group tz (map snd (jobGroups jobs)) []"

subsection \<open>Merging equal rows\<close>

text \<open>The string that \<open>join\<close> makes of a cell: the string itself, or the number in decimal.\<close>

definition cell_text :: "cell \<Rightarrow> string" where
  "cell_text c = (case c of Str s \<Rightarrow> s | Num n \<Rightarrow> toString n)"

text \<open>\<open>String(row.totalTime)\<close> inside \<open>join\<close>: the number, or the empty string.\<close>

definition totalTime_text :: "int option \<Rightarrow> string" where
  "totalTime_text t = (case t of None \<Rightarrow> '''' | Some n \<Rightarrow> toString n)"

definition groupKey :: "row \<Rightarrow> string" where
  "groupKey r =
    join ''|'' [cell_text (row.productId r), machineNumber r, date r, onTime r, offTime r,
                totalTime_text (totalTime r)]"

text \<open>
  \<open>groupedRowsObj\<close> is an object used as a dictionary; every key holds \<open>|\<close>, so none is an
  array index or a property of \<open>Object.prototype\<close>, and \<open>for ... in\<close> visits the keys in
  the order they were added: an association list. One iteration of the loop of lines
  209 to 223:
\<close>

fun merge_row :: "(string \<times> row) list \<Rightarrow> string \<Rightarrow> row \<Rightarrow> (string \<times> row) list" where
  "merge_row [] k r = [(k, r)]"
| "merge_row ((k', r') # obj) k r =
    (if k' = k then (k', r'\<lparr>row.quantity := row.quantity r' + row.quantity r\<rparr>) # obj
     else (k', r') # merge_row obj k r)"

definition groupedRowsObj :: "row list \<Rightarrow> (string \<times> row) list" where
  "groupedRowsObj allRows = foldl (\<lambda>obj r. merge_row obj (groupKey r) r) [] allRows"

subsection \<open>The worksheet\<close>

datatype sheet_row = Data row | Message string | Blank | Total int

text \<open>\<open>a || b\<close> on a number \<open>a\<close> that may be missing.\<close>

definition truthy_or :: "int option \<Rightarrow> int \<Rightarrow> int" where
  "truthy_or a b = (case a of Some x \<Rightarrow> if x \<noteq> 0 then x else b | None \<Rightarrow> b)"

text \<open>The row of the fallback for a job (lines 234 to 244).\<close>

definition fallback_row :: "zone \<Rightarrow> job \<Rightarrow> row" where
  "fallback_row tz j =
    \<lparr>row.productId =
       (case job.product j of
          Some p \<Rightarrow> if product.name p \<noteq> '''' then Str (product.name p)
                    else if job.productId j \<noteq> 0 then Num (job.productId j) else Str ''Unknown''
        | None \<Rightarrow> if job.productId j \<noteq> 0 then Num (job.productId j) else Str ''Unknown''),
     row.quantity = truthy_or (job.quantity j) 1,
     machineNumber = getMachineNumber (map_option machine.name (job.machine j)),
     date = isoDate (job.createdAt j),
     onTime = hhmm tz (job.createdAt j),
     offTime = (case job.updatedAt j of Some u \<Rightarrow> hhmm tz u | None \<Rightarrow> ''''),
     totalTime = None\<rparr>"

text \<open>
  The rows added to the worksheet of the process-wise report (lines 207 to 254), from
  the jobs the query returned.
\<close>

definition worksheet :: "zone \<Rightarrow> job list \<Rightarrow> error + sheet_row list" where
  "worksheet tz jobs =
    (case all_rows tz jobs of
       Inl e \<Rightarrow> Inl e
     | Inr allRows \<Rightarrow>
        (let obj = groupedRowsObj allRows;
             ws1 = map (\<lambda>(k, r). Data r) obj;
             addedRows1 = length obj;
             fallback = (addedRows1 = 0 \<and> length jobs > 0);
             ws2 = (if fallback then ws1 @ map (\<lambda>j. Data (fallback_row tz j)) jobs else ws1);
             addedRows2 = (if fallback then length jobs else addedRows1);
             ws3 = (if addedRows2 = 0
                    then ws2 @ [Message ''No data found for the selected criteria.'']
                    else ws2);
             totalQuantity = foldl (\<lambda>sum r. sum + row.quantity r) 0 (map snd obj)
         in Inr (ws3 @ [Blank, Total totalQuantity])))"

subsection \<open>Notions used in the statements\<close>

text \<open>A job whose two relations are present: the jobs that are put into a group.\<close>

definition resolved :: "'a job_scheme \<Rightarrow> bool" where
  "resolved j = (job.machine j \<noteq> None \<and> job.product j \<noteq> None)"

text \<open>The quantity of a job is a non-negative integer.\<close>

definition whole_quantity :: "'a job_scheme \<Rightarrow> bool" where
  "whole_quantity j = (case job.quantity j of Some n \<Rightarrow> 0 \<le> n | None \<Rightarrow> False)"

definition qty_of :: "'a job_scheme \<Rightarrow> int" where
  "qty_of j = (case job.quantity j of Some n \<Rightarrow> n | None \<Rightarrow> 0)"

text \<open>The sums of the quantities of the ON jobs and of the OFF jobs of a group.\<close>

definition on_total :: "job list \<Rightarrow> int" where
  "on_total grp = sum_list (map qty_of (filter (\<lambda>j. job.state j = ''ON'') grp))"

definition off_total :: "job list \<Rightarrow> int" where
  "off_total grp = sum_list (map qty_of (filter (\<lambda>j. job.state j = ''OFF'') grp))"

text \<open>The sum of the quantities of a list of rows.\<close>

definition qty_sum :: "row list \<Rightarrow> int" where
  "qty_sum rs = sum_list (map row.quantity rs)"

text \<open>The remaining counters of the copies, as numbers, and their sum.\<close>

definition rem_of :: "pjob \<Rightarrow> int" where
  "rem_of j = (case remaining j of Some n \<Rightarrow> n | None \<Rightarrow> 0)"

definition rem_sum :: "pjob list \<Rightarrow> int" where
  "rem_sum js = sum_list (map rem_of js)"

definition counted :: "pjob \<Rightarrow> bool" where
  "counted j = (case remaining j of Some n \<Rightarrow> 0 \<le> n | None \<Rightarrow> False)"

text \<open>
  The invariant of the \<open>while\<close> loop on a group of resolved jobs with whole quantities:
  the indices are in range, every counter is a non-negative integer, and the counters of
  the jobs the indices have passed are zero.
\<close>

definition loop_inv :: "pstate \<Rightarrow> bool" where
  "loop_inv s =
    (onIdx s \<le> length (onJobs s) \<and> offIdx s \<le> length (offJobs s)
     \<and> (\<forall>j \<in> set (onJobs s). resolved j \<and> counted j)
     \<and> (\<forall>j \<in> set (offJobs s). counted j)
     \<and> (\<forall>k < onIdx s. remaining (onJobs s ! k) = Some 0)
     \<and> (\<forall>k < offIdx s. remaining (offJobs s ! k) = Some 0))"

text \<open>
  The state at the head of the \<open>while\<close> loop after \<open>n\<close> iterations, when the loop runs
  that many.
\<close>

fun loop_head :: "zone \<Rightarrow> nat \<Rightarrow> pstate \<Rightarrow> pstate option" where
  "loop_head tz 0 s = Some s"
| "loop_head tz (Suc n) s =
    (if loop_cond s then
       (case pair_step tz s of
          Inr (Continue s') \<Rightarrow> loop_head tz n s'
        | _ \<Rightarrow> None)
     else None)"

text \<open>The fields of a row other than \<open>quantity\<close>, as the values the row holds.\<close>

definition row_fields :: "row \<Rightarrow> cell \<times> string \<times> string \<times> string \<times> string \<times> int option" where
  "row_fields r = (row.productId r, machineNumber r, date r, onTime r, offTime r, totalTime r)"

text \<open>The same fields with the cell \<open>productId\<close> as the string that \<open>join\<close> makes of it.\<close>

definition row_texts :: "row \<Rightarrow> string \<times> string \<times> string \<times> string \<times> string \<times> int option" where
  "row_texts r =
    (cell_text (row.productId r), machineNumber r, date r, onTime r, offTime r, totalTime r)"

text \<open>The elements of a list in the order of their first occurrence.\<close>

fun first_seen :: "'a list \<Rightarrow> 'a list" where
  "first_seen [] = []"
| "first_seen (x # xs) = x # first_seen (removeAll x xs)"

text \<open>A text without the separator of \<open>groupKey\<close>.\<close>

definition bar_free :: "string \<Rightarrow> bool" where
  "bar_free s = (CHR ''|'' \<notin> set s)"

definition tidy :: "row \<Rightarrow> bool" where
  "tidy r = (bar_free (machineNumber r) \<and> bar_free (date r) \<and> bar_free (onTime r)
     \<and> bar_free (offTime r))"

subsection \<open>Example inputs\<close>

text \<open>The zone of UTC, and a job of product 7 on machine 3.\<close>

definition utc :: zone where
  "utc t = 0"

definition example_job :: "string \<Rightarrow> int option \<Rightarrow> int \<Rightarrow> int option \<Rightarrow> job" where
  "example_job st q c u =
    \<lparr>job.productId = 7, machineId = 3, state = st, job.quantity = q, createdAt = c,
     updatedAt = u, machine = Some \<lparr>machine.name = ''Lathe #12''\<rparr>,
     product = Some \<lparr>product.name = ''Widget''\<rparr>\<rparr>"

text \<open>
  On 2024-01-01 (UTC): ON of 10 at 09:00:00; OFF of 4 created at 09:15:00 and closed at
  09:15:30; OFF of 6 at 09:45:00.
\<close>

definition split_group :: "job list" where
  "split_group =
    [example_job ''ON'' (Some 10) 1704099600000 None,
     example_job ''OFF'' (Some 4) 1704100500000 (Some 1704100530000),
     example_job ''OFF'' (Some 6) 1704102300000 None]"

text \<open>ON of 2 at 09:00:00 and OFF of 5 closed at 09:15:30.\<close>

definition surplus_group :: "job list" where
  "surplus_group =
    [example_job ''ON'' (Some 2) 1704099600000 None,
     example_job ''OFF'' (Some 5) 1704100500000 (Some 1704100530000)]"

text \<open>An OFF job created at 08:00:00 and an ON job created at 09:00:00, both of 5.\<close>

definition late_on_group :: "job list" where
  "late_on_group =
    [example_job ''OFF'' (Some 5) 1704096000000 None,
     example_job ''ON'' (Some 5) 1704099600000 None]"

text \<open>An ON job of quantity 0 whose product is missing.\<close>

definition orphan_job :: job where
  "orphan_job = (example_job ''ON'' (Some 0) 1704099600000 None)\<lparr>product := None\<rparr>"

text \<open>
  The jobs of \<open>split_group\<close>, and the same jobs on a second machine 4 with the same
  name; the two rows of the first group, which the second group yields again.
\<close>

definition twin_jobs :: "job list" where
  "twin_jobs = split_group @ map (\<lambda>j. j\<lparr>machineId := 4\<rparr>) split_group"

definition split_rows :: "row list" where
  "split_rows =
    [\<lparr>row.productId = Str ''Widget'', quantity = 4, machineNumber = ''12'', date = ''2024-01-01'',
      onTime = ''09:00'', offTime = ''09:15'', totalTime = Some 15\<rparr>,
     \<lparr>row.productId = Str ''Widget'', quantity = 6, machineNumber = ''12'', date = ''2024-01-01'',
      onTime = ''09:00'', offTime = ''09:45'', totalTime = Some 45\<rparr>]"

text \<open>
  Two products at the same times on machines of the same number: product 5 without a
  name on machine 3, and product 6 with the name \<open>5\<close> on machine 4. Each has an ON job
  at 09:00:00 without an OFF job. The rows of the two groups follow.
\<close>

definition unnamed_five :: job where
  "unnamed_five =
    (example_job ''ON'' (Some 3) 1704099600000 None)
      \<lparr>job.productId := 5, product := Some \<lparr>product.name = ''''\<rparr>\<rparr>"

definition named_five :: job where
  "named_five =
    (example_job ''ON'' (Some 4) 1704099600000 None)
      \<lparr>job.productId := 6, machineId := 4, product := Some \<lparr>product.name = ''5''\<rparr>\<rparr>"

definition number_row :: row where
  "number_row =
    \<lparr>row.productId = Num 5, quantity = 3, machineNumber = ''12'', date = ''2024-01-01'',
     onTime = ''09:00'', offTime = '''', totalTime = None\<rparr>"

definition string_row :: row where
  "string_row =
    \<lparr>row.productId = Str ''5'', quantity = 4, machineNumber = ''12'', date = ''2024-01-01'',
     onTime = ''09:00'', offTime = '''', totalTime = None\<rparr>"

section \<open>The pairing loop under its invariant\<close>

lemma truncate_take_off: "job.truncate (take_off q j) = job.truncate j"
  by (simp add: take_off_def job.defs)

lemma resolved_take_off: "resolved (take_off q j) = resolved j"
  by (simp add: take_off_def resolved_def)

lemma with_remaining_simps:
  "job.truncate (with_remaining j) = j" "remaining (with_remaining j) = job.quantity j"
  "resolved (with_remaining j) = resolved j"
  by (simp_all add: with_remaining_def job.defs pjob.defs resolved_def)

lemma matched_row_ok:
  "resolved onJob \<Longrightarrow>
    \<exists>r. matched_row tz onJob offJob q = Inr r \<and> row.quantity r = q \<and> offTime r \<noteq> ''''"
  by (auto simp: matched_row_def resolved_def Let_def hhmm_def)

lemma pair_emit_cases:
  assumes "remaining (onJobs s ! onIdx s) = Some a" "remaining (offJobs s ! offIdx s) = Some b"
    "resolved (onJobs s ! onIdx s)"
  shows "(min a b \<le> 0 \<and> pair_emit tz s = Inr s) \<or>
     (0 < min a b \<and> (\<exists>r. row.quantity r = min a b \<and> offTime r \<noteq> '''' \<and>
        pair_emit tz s = Inr (s\<lparr>onJobs := (onJobs s)[onIdx s := take_off (min a b) (onJobs s ! onIdx s)],
                          offJobs := (offJobs s)[offIdx s := take_off (min a b) (offJobs s ! offIdx s)],
                          pushed := pushed s @ [r]\<rparr>)))"
  using assms matched_row_ok[OF assms(3), of tz "offJobs s ! offIdx s" "min a b"]
  by (auto simp: pair_emit_def math_min_def Let_def)

lemma rem_sum_update:
  "i < length xs \<Longrightarrow> rem_sum (xs[i := y]) = rem_sum xs - rem_of (xs ! i) + rem_of y"
  unfolding rem_sum_def
  by (induction xs arbitrary: i) (auto split: nat.splits)

lemma rem_of_take_off: "remaining j = Some a \<Longrightarrow> rem_of (take_off q j) = a - q"
  by (simp add: rem_of_def take_off_def)

lemma remaining_take_off: "remaining (take_off q j) = map_option (\<lambda>r. r - q) (remaining j)"
  by (simp add: take_off_def)

lemma counted_take_off:
  "remaining j = Some a \<Longrightarrow> q \<le> a \<Longrightarrow> counted (take_off q j)"
  by (simp add: counted_def take_off_def)

text \<open>One iteration under the invariant.\<close>

lemma pair_emit_inv:
  assumes inv: "loop_inv s" and c: "loop_cond s"
  shows "\<exists>s1 extra. pair_emit tz s = Inr s1 \<and> loop_inv s1
     \<and> onIdx s1 = onIdx s \<and> offIdx s1 = offIdx s
     \<and> length (onJobs s1) = length (onJobs s) \<and> length (offJobs s1) = length (offJobs s)
     \<and> (remaining (onJobs s1 ! onIdx s) = Some 0 \<or> remaining (offJobs s1 ! offIdx s) = Some 0)
     \<and> pushed s1 = pushed s @ extra \<and> (\<forall>r \<in> set extra. offTime r \<noteq> '''')
     \<and> qty_sum extra + rem_sum (onJobs s1) = rem_sum (onJobs s)
     \<and> qty_sum extra + rem_sum (offJobs s1) = rem_sum (offJobs s)"
proof -
  let ?i = "onIdx s" and ?j = "offIdx s"
  let ?on = "onJobs s ! ?i" and ?off = "offJobs s ! ?j"
  from c have i: "?i < length (onJobs s)" and j: "?j < length (offJobs s)"
    by (simp_all add: loop_cond_def)
  from inv i j have r: "resolved ?on" and con: "counted ?on" and coff: "counted ?off"
    by (simp_all add: loop_inv_def)
  from con obtain a where a: "remaining ?on = Some a" "0 \<le> a"
    by (auto simp: counted_def split: option.splits)
  from coff obtain b where b: "remaining ?off = Some b" "0 \<le> b"
    by (auto simp: counted_def split: option.splits)
  have ra: "rem_of ?on = a" and rb: "rem_of ?off = b"
    using a b by (simp_all add: rem_of_def)
  let ?q = "min a b"
  from pair_emit_cases [OF a(1) b(1) r, of tz]
  consider (none) "?q \<le> 0" "pair_emit tz s = Inr s"
    | (some) r where "0 < ?q" "row.quantity r = ?q" "offTime r \<noteq> ''''"
        "pair_emit tz s = Inr (s\<lparr>onJobs := (onJobs s)[?i := take_off ?q ?on],
                          offJobs := (offJobs s)[?j := take_off ?q ?off],
                          pushed := pushed s @ [r]\<rparr>)"
    by blast
  then show ?thesis
  proof cases
    case none
    with a b have "a = 0 \<or> b = 0" by auto
    with a b none show ?thesis
      by (intro exI [of _ s] exI [of _ "[]"]) (auto simp: inv qty_sum_def)
  next
    case some
    let ?s1 = "s\<lparr>onJobs := (onJobs s)[?i := take_off ?q ?on],
                          offJobs := (offJobs s)[?j := take_off ?q ?off],
                          pushed := pushed s @ [r]\<rparr>"
    have z: "remaining (onJobs ?s1 ! ?i) = Some 0 \<or> remaining (offJobs ?s1 ! ?j) = Some 0"
      using i j a b by (auto simp: remaining_take_off min_def)
    have con': "counted (take_off ?q ?on)" and coff': "counted (take_off ?q ?off)"
      using a b by (auto intro: counted_take_off)
    have inv1: "loop_inv ?s1"
      unfolding loop_inv_def
    proof (intro conjI)
      show "\<forall>j\<in>set (onJobs ?s1). resolved j \<and> counted j"
        using inv r con' set_update_subset_insert [of "onJobs s" ?i "take_off ?q ?on"]
        by (auto simp: loop_inv_def resolved_take_off)
      show "\<forall>j\<in>set (offJobs ?s1). counted j"
        using inv coff' set_update_subset_insert [of "offJobs s" ?j "take_off ?q ?off"]
        by (auto simp: loop_inv_def)
    qed (use inv in \<open>auto simp: loop_inv_def\<close>)
    have s1: "qty_sum [r] + rem_sum (onJobs ?s1) = rem_sum (onJobs s)"
      using i a some(2) ra by (simp add: rem_sum_update rem_of_take_off qty_sum_def)
    have s2: "qty_sum [r] + rem_sum (offJobs ?s1) = rem_sum (offJobs s)"
      using j b some(2) rb by (simp add: rem_sum_update rem_of_take_off qty_sum_def)
    show ?thesis
      using some(3,4) z inv1 s1 s2
      by (intro exI [of _ ?s1] exI [of _ "[r]"]) simp
  qed
qed


lemma pair_step_inv:
  assumes inv: "loop_inv s" and c: "loop_cond s"
  shows "\<exists>s1 s' extra. pair_emit tz s = Inr s1
     \<and> (remaining (onJobs s1 ! onIdx s1) = Some 0 \<or> remaining (offJobs s1 ! offIdx s1) = Some 0)
     \<and> pair_advance s1 = Continue s'
     \<and> pair_step tz s = Inr (Continue s') \<and> loop_inv s'
     \<and> onIdx s + offIdx s < onIdx s' + offIdx s'
     \<and> length (onJobs s') = length (onJobs s) \<and> length (offJobs s') = length (offJobs s)
     \<and> pushed s' = pushed s @ extra \<and> (\<forall>r \<in> set extra. offTime r \<noteq> [])
     \<and> qty_sum extra + rem_sum (onJobs s') = rem_sum (onJobs s)
     \<and> qty_sum extra + rem_sum (offJobs s') = rem_sum (offJobs s)"
proof -
  from pair_emit_inv [OF inv c, of tz] obtain s1 extra where
    e: "pair_emit tz s = Inr s1" and inv1: "loop_inv s1"
    and ix: "onIdx s1 = onIdx s" "offIdx s1 = offIdx s"
    and len: "length (onJobs s1) = length (onJobs s)" "length (offJobs s1) = length (offJobs s)"
    and z: "remaining (onJobs s1 ! onIdx s) = Some 0 \<or> remaining (offJobs s1 ! offIdx s) = Some 0"
    and rest: "pushed s1 = pushed s @ extra" "\<forall>r \<in> set extra. offTime r \<noteq> []"
      "qty_sum extra + rem_sum (onJobs s1) = rem_sum (onJobs s)"
      "qty_sum extra + rem_sum (offJobs s1) = rem_sum (offJobs s)"
    by blast
  from c ix len have c1: "onIdx s1 < length (onJobs s1)" "offIdx s1 < length (offJobs s1)"
    by (simp_all add: loop_cond_def)
  from z ix have "\<exists>s'. pair_advance s1 = Continue s'"
    by (auto simp: pair_advance_def Let_def)
  then obtain s' where a: "pair_advance s1 = Continue s'" ..
  have inv': "loop_inv s'"
    using a inv1 c1 unfolding pair_advance_def Let_def loop_inv_def
    by (auto split: if_splits simp: less_Suc_eq)
  have fr: "onJobs s' = onJobs s1" "offJobs s' = offJobs s1" "pushed s' = pushed s1"
    "onIdx s1 + offIdx s1 < onIdx s' + offIdx s'"
    using a unfolding pair_advance_def Let_def by (auto split: if_splits)
  show ?thesis
    using e a z inv' fr ix len rest
    by (intro exI [of _ s1] exI [of _ s'] exI [of _ extra]) (simp add: pair_step_def)
qed

lemma pair_loop_inv:
  assumes "loop_inv s"
  shows "\<exists>s' extra. pair_loop tz s = Inr (Exhausted, s') \<and> loop_inv s' \<and> \<not> loop_cond s'
     \<and> length (onJobs s') = length (onJobs s) \<and> length (offJobs s') = length (offJobs s)
     \<and> pushed s' = pushed s @ extra \<and> (\<forall>r \<in> set extra. offTime r \<noteq> [])
     \<and> qty_sum extra + rem_sum (onJobs s') = rem_sum (onJobs s)
     \<and> qty_sum extra + rem_sum (offJobs s') = rem_sum (offJobs s)"
  using assms
proof (induction tz s rule: pair_loop.induct)
  case (1 tz s)
  show ?case
  proof (cases "loop_cond s")
    case False
    with "1.prems" show ?thesis
      by (intro exI [of _ s] exI [of _ "[]"]) (simp add: pair_loop.simps qty_sum_def)
  next
    case True
    from pair_step_inv [OF "1.prems" True, of tz] obtain s1 e1 where
      st: "pair_step tz s = Inr (Continue s1)" and inv1: "loop_inv s1"
      and len: "length (onJobs s1) = length (onJobs s)" "length (offJobs s1) = length (offJobs s)"
      and r1: "pushed s1 = pushed s @ e1" "\<forall>r \<in> set e1. offTime r \<noteq> []"
        "qty_sum e1 + rem_sum (onJobs s1) = rem_sum (onJobs s)"
        "qty_sum e1 + rem_sum (offJobs s1) = rem_sum (offJobs s)"
      by blast
    from "1.IH" [OF True st refl inv1] obtain s' e2 where
      lp: "pair_loop tz s1 = Inr (Exhausted, s')" and inv': "loop_inv s'" "\<not> loop_cond s'"
      and len': "length (onJobs s') = length (onJobs s1)" "length (offJobs s') = length (offJobs s1)"
      and r2: "pushed s' = pushed s1 @ e2" "\<forall>r \<in> set e2. offTime r \<noteq> []"
        "qty_sum e2 + rem_sum (onJobs s') = rem_sum (onJobs s1)"
        "qty_sum e2 + rem_sum (offJobs s') = rem_sum (offJobs s1)"
      by blast
    have "pair_loop tz s = Inr (Exhausted, s')"
      using True st lp by (subst pair_loop.simps) simp
    moreover have "qty_sum (e1 @ e2) = qty_sum e1 + qty_sum e2"
      by (simp add: qty_sum_def)
    ultimately show ?thesis
      using inv' len len' r1 r2
      by (intro exI [of _ s'] exI [of _ "e1 @ e2"]) auto
  qed
qed

lemma unmatched_row_ok:
  "resolved onJob \<Longrightarrow>
    \<exists>r. unmatched_row tz onJob q = Inr r \<and> row.quantity r = q \<and> offTime r = ''''"
  by (auto simp: unmatched_row_def resolved_def Let_def)

lemma leftover_sum:
  assumes "\<forall>j \<in> set js. resolved j \<and> counted j"
  shows "\<exists>extra. leftover tz js rows = Inr (rows @ extra) \<and> qty_sum extra = rem_sum js
     \<and> (\<forall>r \<in> set extra. offTime r = '''')"
  using assms
proof (induction js arbitrary: rows)
  case Nil
  then show ?case by (simp add: qty_sum_def rem_sum_def)
next
  case (Cons j js)
  from Cons.prems obtain n where n: "remaining j = Some n" "0 \<le> n" and r: "resolved j"
    by (auto simp: counted_def split: option.splits)
  show ?case
  proof (cases "0 < n")
    case False
    with n have "n = 0" by simp
    with n Cons.IH [of rows] Cons.prems show ?thesis
      by (auto simp: rem_sum_def rem_of_def)
  next
    case True
    from unmatched_row_ok [OF r, of tz n] obtain r0 where
      r0: "unmatched_row tz j n = Inr r0" "row.quantity r0 = n" "offTime r0 = ''''"
      by blast
    from Cons.IH [of "rows @ [r0]"] Cons.prems obtain extra where
      e: "leftover tz js (rows @ [r0]) = Inr ((rows @ [r0]) @ extra)" "qty_sum extra = rem_sum js"
        "\<forall>r \<in> set extra. offTime r = ''''"
      by auto
    show ?thesis
      using True n r0 e
      by (intro exI [of _ "r0 # extra"]) (simp add: qty_sum_def rem_sum_def rem_of_def)
  qed
qed

lemma sum_list_map_insort_key:
  "sum_list (map g (insort_key f x xs)) = (g x :: int) + sum_list (map g xs)"
  by (induction xs) simp_all

lemma sum_list_map_sort_key:
  "sum_list (map g (sort_key f xs)) = (sum_list (map g xs) :: int)"
  by (induction xs) (simp_all add: sum_list_map_insort_key)

lemma rem_of_with_remaining: "rem_of (with_remaining j) = qty_of j"
  by (simp add: rem_of_def qty_of_def with_remaining_simps)

lemma counted_with_remaining: "counted (with_remaining j) = whole_quantity j"
  by (simp add: counted_def whole_quantity_def with_remaining_simps)

lemma init_state_sums:
  "rem_sum (onJobs (init_state g)) = on_total g" "rem_sum (offJobs (init_state g)) = off_total g"
  "pushed (init_state g) = []"
  by (simp_all add: init_state_def rem_sum_def on_total_def off_total_def comp_def
      rem_of_with_remaining filter_sort sum_list_map_sort_key)

lemma init_state_inv:
  assumes "\<forall>j \<in> set g. resolved j \<and> whole_quantity j"
  shows "loop_inv (init_state g)"
  using assms
  by (auto simp: loop_inv_def init_state_def Let_def with_remaining_simps counted_with_remaining)

lemma sum_list_all_zero: "\<forall>x \<in> set xs. x = 0 \<Longrightarrow> sum_list xs = (0::int)"
  by (induction xs) auto

lemma rem_sum_zero_prefix:
  assumes "\<forall>k < n. remaining (js ! k) = Some 0" and "n \<le> length js"
  shows "rem_sum js = rem_sum (drop n js)"
proof -
  have "\<forall>x \<in> set (map rem_of (take n js)). x = 0"
  proof
    fix x assume "x \<in> set (map rem_of (take n js))"
    then obtain k where "k < n" "k < length js" "x = rem_of (js ! k)"
      by (auto simp: in_set_conv_nth)
    with assms show "x = 0" by (simp add: rem_of_def)
  qed
  then have "rem_sum (take n js) = 0"
    unfolding rem_sum_def by (rule sum_list_all_zero)
  moreover have "rem_sum js = rem_sum (take n js) + rem_sum (drop n js)"
    unfolding rem_sum_def by (metis append_take_drop_id map_append sum_list_append)
  ultimately show ?thesis by simp
qed

lemma rem_sum_nonneg: "\<forall>j \<in> set js. counted j \<Longrightarrow> 0 \<le> rem_sum js"
  unfolding rem_sum_def
  by (rule sum_list_nonneg) (auto simp: rem_of_def counted_def split: option.splits)

lemma reconcile_group_shape:
  assumes "\<forall>j \<in> set g. resolved j \<and> whole_quantity j"
  shows "\<exists>matched unmatched. reconcile_group tz g = Inr (matched @ unmatched)
     \<and> (\<forall>r \<in> set matched. offTime r \<noteq> '''') \<and> (\<forall>r \<in> set unmatched. offTime r = '''')
     \<and> qty_sum matched = min (on_total g) (off_total g)
     \<and> qty_sum matched + qty_sum unmatched = on_total g"
proof -
  from pair_loop_inv [OF init_state_inv [OF assms], of tz] obtain s' matched where
    lp: "pair_loop tz (init_state g) = Inr (Exhausted, s')" and inv: "loop_inv s'"
    and fin: "\<not> loop_cond s'"
    and p: "pushed s' = matched" "\<forall>r \<in> set matched. offTime r \<noteq> []"
    and son: "qty_sum matched + rem_sum (onJobs s') = on_total g"
    and soff: "qty_sum matched + rem_sum (offJobs s') = off_total g"
    by (auto simp: init_state_sums)
  have rest: "\<forall>j \<in> set (drop (onIdx s') (onJobs s')). resolved j \<and> counted j"
    using inv by (auto simp: loop_inv_def dest: in_set_dropD)
  from leftover_sum [OF rest, of tz matched] obtain unmatched where
    lo: "leftover tz (drop (onIdx s') (onJobs s')) matched = Inr (matched @ unmatched)"
    and u: "qty_sum unmatched = rem_sum (drop (onIdx s') (onJobs s'))"
      "\<forall>r \<in> set unmatched. offTime r = ''''"
    by blast
  have zon: "rem_sum (onJobs s') = rem_sum (drop (onIdx s') (onJobs s'))"
    using inv by (intro rem_sum_zero_prefix) (simp_all add: loop_inv_def)
  have zoff: "rem_sum (offJobs s') = rem_sum (drop (offIdx s') (offJobs s'))"
    using inv by (intro rem_sum_zero_prefix) (simp_all add: loop_inv_def)
  have non: "0 \<le> rem_sum (onJobs s')" and noff: "0 \<le> rem_sum (offJobs s')"
    using inv by (simp_all add: loop_inv_def rem_sum_nonneg)
  from fin inv have "onIdx s' = length (onJobs s') \<or> offIdx s' = length (offJobs s')"
    by (auto simp: loop_cond_def loop_inv_def)
  then have "rem_sum (onJobs s') = 0 \<or> rem_sum (offJobs s') = 0"
    using zon zoff by (auto simp: rem_sum_def)
  with son soff non noff have m: "qty_sum matched = min (on_total g) (off_total g)"
    by auto
  have "reconcile_group tz g = Inr (matched @ unmatched)"
    using lp lo p by (simp add: reconcile_group_def)
  moreover have "qty_sum matched + qty_sum unmatched = on_total g"
    using u(1) zon son by simp
  ultimately show ?thesis
    using p(2) u(2) m by (intro exI [of _ matched] exI [of _ unmatched]) simp
qed

lemma push_job_members:
  assumes "(k', g') \<in> set (push_job gs k j)" and "x \<in> set g'"
  shows "x = j \<or> (\<exists>g. (k', g) \<in> set gs \<and> x \<in> set g)"
  using assms
proof (induction gs)
  case Nil
  then show ?case by simp
next
  case (Cons p gs)
  obtain k0 g0 where p: "p = (k0, g0)" by (cases p)
  show ?case
  proof (cases "k0 = k")
    case True
    with Cons.prems p have "(k', g') = (k0, g0 @ [j]) \<or> (k', g') \<in> set gs"
      by simp
    with Cons.prems(2) p show ?thesis by auto
  next
    case False
    with Cons.prems p have "(k', g') = (k0, g0) \<or> (k', g') \<in> set (push_job gs k j)"
      by simp
    with Cons.IH Cons.prems(2) p show ?thesis by auto
  qed
qed

lemma jobGroups_snoc: "jobGroups (jobs @ [j]) = add_job (jobGroups jobs) j"
  by (simp add: jobGroups_def)

lemma jobGroups_members:
  assumes "(k, g) \<in> set (jobGroups jobs)" and "x \<in> set g"
  shows "x \<in> set jobs \<and> resolved x"
  using assms
proof (induction jobs arbitrary: k g rule: rev_induct)
  case Nil
  then show ?case by (simp add: jobGroups_def)
next
  case (snoc j jobs)
  show ?case
  proof (cases "job.product j = None \<or> job.machine j = None")
    case True
    with snoc.prems have "(k, g) \<in> set (jobGroups jobs)"
      by (simp add: jobGroups_snoc add_job_def)
    with snoc.IH snoc.prems(2) show ?thesis by auto
  next
    case False
    then have rj: "resolved j" by (simp add: resolved_def)
    from False snoc.prems(1) have "(k, g) \<in> set (push_job (jobGroups jobs) (job_key j) j)"
      by (auto simp: jobGroups_snoc add_job_def)
    from push_job_members [OF this snoc.prems(2)] snoc.IH rj show ?thesis
      by auto
  qed
qed

lemma loop_head_inv:
  assumes "loop_head tz n s0 = Some s" and "loop_inv s0"
  shows "loop_inv s"
  using assms
proof (induction n arbitrary: s0)
  case 0
  then show ?case by simp
next
  case (Suc n)
  from Suc.prems(1) have c: "loop_cond s0"
    by (simp split: if_splits)
  from pair_step_inv [OF Suc.prems(2) c, of tz] obtain s1 where
    "pair_step tz s0 = Inr (Continue s1)" "loop_inv s1"
    by blast
  with Suc.prems(1) c Suc.IH [of s1] show ?case by simp
qed

lemma truncate_update:
  "map job.truncate (js[i := take_off q (js ! i)]) = map job.truncate js"
  by (metis list_update_id map_update truncate_take_off)

lemma pair_emit_truncate:
  assumes "pair_emit tz s = Inr s1"
  shows "map job.truncate (onJobs s1) = map job.truncate (onJobs s)
     \<and> map job.truncate (offJobs s1) = map job.truncate (offJobs s)"
  using assms
  by (auto simp: pair_emit_def Let_def truncate_update split: option.splits if_splits sum.splits)

lemma pair_advance_jobs:
  assumes "pair_advance s1 = Continue s' \<or> pair_advance s1 = Break s'"
  shows "onJobs s' = onJobs s1 \<and> offJobs s' = offJobs s1 \<and> pushed s' = pushed s1"
  using assms by (auto simp: pair_advance_def Let_def split: if_splits)

lemma pair_loop_truncate:
  assumes "pair_loop tz s = Inr (ex, s')"
  shows "map job.truncate (onJobs s') = map job.truncate (onJobs s)
     \<and> map job.truncate (offJobs s') = map job.truncate (offJobs s)"
  using assms
proof (induction tz s rule: pair_loop.induct)
  case (1 tz s)
  show ?case
  proof (cases "loop_cond s")
    case False
    with "1.prems" show ?thesis by (simp add: pair_loop.simps)
  next
    case True
    with "1.prems" obtain s1 oc where e: "pair_emit tz s = Inr s1" and st: "pair_step tz s = Inr oc"
      and oc: "oc = pair_advance s1"
      by (subst (asm) pair_loop.simps) (auto simp: pair_step_def split: sum.splits)
    note t1 = pair_emit_truncate [OF e]
    show ?thesis
    proof (cases oc)
      case (Break s2)
      with "1.prems" True st have "s' = s2"
        by (subst (asm) pair_loop.simps) simp
      with Break oc pair_advance_jobs [of s1 s2] t1 show ?thesis by simp
    next
      case (Continue s2)
      with "1.prems" True st have "pair_loop tz s2 = Inr (ex, s')"
        by (subst (asm) pair_loop.simps) simp
      from "1.IH" [OF True st Continue this] Continue oc pair_advance_jobs [of s1 s2] t1
      show ?thesis by simp
    qed
  qed
qed

lemma pair_loop_continue:
  assumes "loop_cond s" "pair_emit tz s = Inr s1" "pair_advance s1 = Continue s2"
  shows "pair_loop tz s = pair_loop tz s2"
  using assms by (subst pair_loop.simps) (simp add: pair_step_def)

lemma pair_loop_exhausted: "\<not> loop_cond s \<Longrightarrow> pair_loop tz s = Inr (Exhausted, s)"
  by (subst pair_loop.simps) simp

lemma init_state_filters:
  assumes "filter (\<lambda>j. job.state j = ''ON'') (sort_key job.createdAt g) = ons"
    and "filter (\<lambda>j. job.state j = ''OFF'') (sort_key job.createdAt g) = offs"
  shows "init_state g = \<lparr>onJobs = map with_remaining ons, offJobs = map with_remaining offs,
     onIdx = 0, offIdx = 0, pushed = []\<rparr>"
  using assms by (simp add: init_state_def Let_def)

lemma reconcile_no_on:
  assumes "filter (\<lambda>j. job.state j = ''ON'') g = []"
  shows "reconcile_group tz g = Inr []"
proof -
  from assms have "onJobs (init_state g) = []"
    by (simp add: init_state_def Let_def filter_sort)
  then have "\<not> loop_cond (init_state g)" by (simp add: loop_cond_def)
  from pair_loop_exhausted [OF this, of tz] \<open>onJobs (init_state g) = []\<close> show ?thesis
    by (simp add: reconcile_group_def init_state_sums)
qed

lemma take_off_with_remaining:
  "job.quantity j = Some a \<Longrightarrow> remaining (take_off q (with_remaining j)) = Some (a - q)"
  by (simp add: take_off_def with_remaining_simps)

text \<open>One ON job against one OFF job that holds more.\<close>

lemma reconcile_one_on_larger_off:
  assumes ons: "filter (\<lambda>j. job.state j = ''ON'') (sort_key job.createdAt g) = [on]"
    and offs: "filter (\<lambda>j. job.state j = ''OFF'') (sort_key job.createdAt g) = [off]"
    and r: "resolved on"
    and q: "job.quantity on = Some a" "job.quantity off = Some b" "0 < a" "a < b"
  shows "\<exists>r. reconcile_group tz g = Inr [r]
     \<and> matched_row tz (with_remaining on) (with_remaining off) a = Inr r"
proof -
  let ?s0 = "\<lparr>onJobs = [with_remaining on], offJobs = [with_remaining off],
     onIdx = 0, offIdx = 0, pushed = []\<rparr>"
  have i: "init_state g = ?s0"
    using init_state_filters [OF ons offs] by simp
  from matched_row_ok [of "with_remaining on" tz "with_remaining off" a] r obtain r0 where
    r0: "matched_row tz (with_remaining on) (with_remaining off) a = Inr r0"
    by (auto simp: with_remaining_simps)
  let ?s1 = "\<lparr>onJobs = [take_off a (with_remaining on)], offJobs = [take_off a (with_remaining off)],
     onIdx = 0, offIdx = 0, pushed = [r0]\<rparr>"
  have e: "pair_emit tz ?s0 = Inr ?s1"
    using q r0 by (simp add: pair_emit_def math_min_def with_remaining_simps Let_def)
  have a: "pair_advance ?s1 = Continue (?s1\<lparr>onIdx := 1\<rparr>)"
    using q by (simp add: pair_advance_def take_off_with_remaining)
  have "pair_loop tz ?s0 = pair_loop tz (?s1\<lparr>onIdx := 1\<rparr>)"
    by (rule pair_loop_continue [OF _ e a]) (simp add: loop_cond_def)
  also have "\<dots> = Inr (Exhausted, ?s1\<lparr>onIdx := 1\<rparr>)"
    by (rule pair_loop_exhausted) (simp add: loop_cond_def)
  finally show ?thesis
    using r0 by (simp add: reconcile_group_def i)
qed

lemma setSeconds0_minutes: "setSeconds0 t = 60000 * (t div 60000)"
  by (simp add: setSeconds0_def minus_mod_eq_mult_div)

lemma roundMinutes_whole: "roundMinutes (setSeconds0 a - setSeconds0 b) = a div 60000 - b div 60000"
proof -
  have "setSeconds0 a - setSeconds0 b + 30000 = 30000 + (a div 60000 - b div 60000) * 60000"
    by (simp add: setSeconds0_minutes algebra_simps)
  then show ?thesis
    unfolding roundMinutes_def by (simp only: div_mult_self2) simp
qed

lemma groupedRowsObj_Nil: "groupedRowsObj [] = []"
  by (simp add: groupedRowsObj_def)

lemma all_rows_Nil: "all_rows tz [] = Inr []"
  by (simp add: all_rows_def jobGroups_def)

section \<open>Texts of numbers, times and dates\<close>

lemma of_char_digit_char: "(of_char (digit_char d) :: nat) = (48 + d) mod 256"
  by (simp add: digit_char_def)

lemma is_digit_digit_char: "d < 10 \<Longrightarrow> is_digit (digit_char d)"
proof -
  assume "d < 10"
  then have "d \<in> set [0..<10]" by simp
  moreover have "list_all (\<lambda>d. is_digit (digit_char d)) [0..<10]" by code_simp
  ultimately show ?thesis unfolding list_all_iff by blast
qed

lemma digit_char_inj: "d < 10 \<Longrightarrow> e < 10 \<Longrightarrow> digit_char d = digit_char e \<Longrightarrow> d = e"
proof -
  assume a: "d < 10" "e < 10" "digit_char d = digit_char e"
  then have "(of_char (digit_char d) :: nat) = of_char (digit_char e)" by simp
  with a(1,2) show ?thesis by (simp add: of_char_digit_char)
qed

lemma show_nat_digits: "\<forall>c \<in> set (show_nat n). is_digit c"
proof (induction n rule: show_nat.induct)
  case (1 n)
  show ?case
  proof (cases "n < 10")
    case True
    then show ?thesis by (subst show_nat.simps) (simp add: is_digit_digit_char)
  next
    case False
    with "1.IH" show ?thesis by (subst show_nat.simps) (simp add: is_digit_digit_char)
  qed
qed

lemma show_nat_not_Nil: "show_nat n \<noteq> []"
  by (subst show_nat.simps) simp

lemma show_nat_inj: "show_nat n = show_nat m \<Longrightarrow> n = m"
proof (induction n arbitrary: m rule: show_nat.induct)
  case (1 n)
  show ?case
  proof (cases "n < 10")
    case n: True
    show ?thesis
    proof (cases "m < 10")
      case True
      with n "1.prems" show ?thesis
        by (simp add: show_nat.simps [of n] show_nat.simps [of m] digit_char_inj)
    next
      case False
      with n "1.prems" show_nat_not_Nil [of "m div 10"] show ?thesis
        by (simp add: show_nat.simps [of n] show_nat.simps [of m])
    qed
  next
    case n: False
    show ?thesis
    proof (cases "m < 10")
      case True
      with n "1.prems" show_nat_not_Nil [of "n div 10"] show ?thesis
        by (simp add: show_nat.simps [of n] show_nat.simps [of m])
    next
      case False
      with n "1.prems" have "show_nat (n div 10) = show_nat (m div 10)"
        and "digit_char (n mod 10) = digit_char (m mod 10)"
        by (simp_all add: show_nat.simps [of n] show_nat.simps [of m])
      with "1.IH" [OF n, of "m div 10"] have "n div 10 = m div 10" "n mod 10 = m mod 10"
        by (simp_all add: digit_char_inj)
      then show ?thesis by (metis div_mult_mod_eq)
    qed
  qed
qed

lemma is_digit_not_sign: "is_digit c \<Longrightarrow> c \<noteq> CHR ''-'' \<and> c \<noteq> CHR ''|'' \<and> c \<noteq> CHR ''_''"
  by (auto simp: is_digit_def)

lemma toString_inj: "toString i = toString j \<Longrightarrow> i = j"
proof -
  assume e: "toString i = toString j"
  have hd: "hd (show_nat n) \<noteq> CHR ''-''" for n
    using show_nat_digits [of n] show_nat_not_Nil [of n] is_digit_not_sign
    by (cases "show_nat n") auto
  show ?thesis
  proof (cases "i < 0")
    case i: True
    show ?thesis
    proof (cases "j < 0")
      case True
      with i e have "nat (- i) = nat (- j)" by (simp add: toString_def show_nat_inj)
      with i True show ?thesis by simp
    next
      case False
      with i e hd [of "nat j"] show ?thesis
        by (auto simp: toString_def dest: arg_cong [where f = hd])
    qed
  next
    case i: False
    show ?thesis
    proof (cases "j < 0")
      case True
      with i e hd [of "nat i"] show ?thesis
        by (auto simp: toString_def dest: arg_cong [where f = hd])
    next
      case False
      with i e have "nat i = nat j" by (simp add: toString_def show_nat_inj)
      with i False show ?thesis by simp
    qed
  qed
qed

lemma toString_not_Nil: "toString i \<noteq> []"
  by (simp add: toString_def show_nat_not_Nil)

lemma bar_free_simps:
  "bar_free []" "bar_free (c # s) = (c \<noteq> CHR ''|'' \<and> bar_free s)"
  "bar_free (s @ t) = (bar_free s \<and> bar_free t)"
  by (auto simp: bar_free_def)

lemma bar_free_digits: "\<forall>c \<in> set s. is_digit c \<Longrightarrow> bar_free s"
  using is_digit_not_sign by (auto simp: bar_free_def)

lemma bar_free_toString: "bar_free (toString i)"
  by (simp add: toString_def bar_free_simps bar_free_digits show_nat_digits)

lemma bar_free_padStart: "bar_free s \<Longrightarrow> bar_free (padStart w CHR ''0'' s)"
  by (auto simp: padStart_def bar_free_def)

lemma bar_free_hhmm: "bar_free (hhmm tz t)"
  by (simp add: hhmm_def pad2_def bar_free_simps bar_free_padStart bar_free_toString)

lemma bar_free_isoDate: "bar_free (isoDate t)"
  by (simp add: isoDate_def isoYear_def pad2_def bar_free_simps bar_free_padStart
      bar_free_toString split: prod.splits)

lemma match_hash_digits_digits: "match_hash_digits s = Some d \<Longrightarrow> \<forall>c \<in> set d. is_digit c"
  by (induction s) (auto split: if_splits dest: set_takeWhileD)

lemma match_last_digits_digits: "match_last_digits s = Some d \<Longrightarrow> \<forall>c \<in> set d. is_digit c"
  by (auto simp: match_last_digits_def Let_def split: if_splits dest: set_takeWhileD)

lemma bar_free_getMachineNumber: "bar_free (getMachineNumber x)"
  by (auto simp: getMachineNumber_def bar_free_simps split: option.splits
      intro: bar_free_digits dest: match_hash_digits_digits match_last_digits_digits)

lemma bar_free_totalTime_text: "bar_free (totalTime_text t)"
  by (simp add: totalTime_text_def bar_free_simps bar_free_toString split: option.splits)

lemma totalTime_text_inj: "totalTime_text a = totalTime_text b \<Longrightarrow> a = b"
  using toString_not_Nil
  by (auto simp: totalTime_text_def split: option.splits dest: toString_inj) metis+

lemma split_last_bar:
  assumes "bar_free b" "bar_free d" "a @ CHR ''|'' # b = c @ CHR ''|'' # d"
  shows "a = c \<and> b = d"
proof -
  from assms(3) have "rev b @ CHR ''|'' # rev a = rev d @ CHR ''|'' # rev c"
    by (metis rev.simps(2) rev_append append_assoc append_Cons append_Nil)
  moreover have "takeWhile (\<lambda>x. x \<noteq> CHR ''|'') (rev b @ CHR ''|'' # rev a) = rev b"
    using assms(1) by (auto simp: bar_free_def takeWhile_tail)
  moreover have "takeWhile (\<lambda>x. x \<noteq> CHR ''|'') (rev d @ CHR ''|'' # rev c) = rev d"
    using assms(2) by (auto simp: bar_free_def takeWhile_tail)
  ultimately have "rev b = rev d" by simp
  with assms(3) show ?thesis by simp
qed

lemma groupKey_inj:
  assumes "tidy r" "tidy r'" "groupKey r = groupKey r'"
  shows "row_texts r = row_texts r'"
proof -
  let ?t = "totalTime_text (totalTime r)" and ?t' = "totalTime_text (totalTime r')"
  from assms(3) have
    "(cell_text (row.productId r) @ ''|'' @ machineNumber r @ ''|'' @ date r @ ''|'' @ onTime r @ ''|'' @ offTime r) @ CHR ''|'' # ?t
     = (cell_text (row.productId r') @ ''|'' @ machineNumber r' @ ''|'' @ date r' @ ''|'' @ onTime r' @ ''|'' @ offTime r') @ CHR ''|'' # ?t'"
    by (simp add: groupKey_def)
  from split_last_bar [OF bar_free_totalTime_text bar_free_totalTime_text this]
  have 1: "?t = ?t'" and
    "(cell_text (row.productId r) @ ''|'' @ machineNumber r @ ''|'' @ date r @ ''|'' @ onTime r) @ CHR ''|'' # offTime r
     = (cell_text (row.productId r') @ ''|'' @ machineNumber r' @ ''|'' @ date r' @ ''|'' @ onTime r') @ CHR ''|'' # offTime r'"
    by simp_all
  from split_last_bar [OF _ _ this(2)] assms(1,2)
  have 2: "offTime r = offTime r'" and
    "(cell_text (row.productId r) @ ''|'' @ machineNumber r @ ''|'' @ date r) @ CHR ''|'' # onTime r
     = (cell_text (row.productId r') @ ''|'' @ machineNumber r' @ ''|'' @ date r') @ CHR ''|'' # onTime r'"
    by (simp_all add: tidy_def)
  from split_last_bar [OF _ _ this(2)] assms(1,2)
  have 3: "onTime r = onTime r'" and
    "(cell_text (row.productId r) @ ''|'' @ machineNumber r) @ CHR ''|'' # date r
     = (cell_text (row.productId r') @ ''|'' @ machineNumber r') @ CHR ''|'' # date r'"
    by (simp_all add: tidy_def)
  from split_last_bar [OF _ _ this(2)] assms(1,2)
  have 4: "date r = date r'" and
    "cell_text (row.productId r) @ CHR ''|'' # machineNumber r = cell_text (row.productId r') @ CHR ''|'' # machineNumber r'"
    by (simp_all add: tidy_def)
  from split_last_bar [OF _ _ this(2)] assms(1,2)
  have 5: "machineNumber r = machineNumber r'" "cell_text (row.productId r) = cell_text (row.productId r')"
    by (simp_all add: tidy_def)
  from 1 have "totalTime r = totalTime r'" by (rule totalTime_text_inj)
  with 2 3 4 5 show ?thesis by (simp add: row_texts_def)
qed

lemma groupKey_texts: "row_texts r = row_texts r' \<Longrightarrow> groupKey r = groupKey r'"
  by (simp add: row_texts_def groupKey_def)

lemma row_texts_fields: "row_fields r = row_fields r' \<Longrightarrow> row_texts r = row_texts r'"
  by (simp add: row_texts_def row_fields_def)

lemma groupKey_fields: "row_fields r = row_fields r' \<Longrightarrow> groupKey r = groupKey r'"
  by (simp add: row_fields_def groupKey_def)

lemma cell_text_eq:
  assumes "cell_text c = cell_text d"
  shows "c = d \<or> (\<exists>n. (c = Num n \<and> d = Str (toString n)) \<or> (c = Str (toString n) \<and> d = Num n))"
proof (cases c)
  case c: (Str s)
  show ?thesis
  proof (cases d)
    case (Str t)
    with c assms show ?thesis by (simp add: cell_text_def)
  next
    case (Num n)
    with c assms show ?thesis by (simp add: cell_text_def)
  qed
next
  case c: (Num m)
  show ?thesis
  proof (cases d)
    case (Str t)
    with c assms show ?thesis by (simp add: cell_text_def)
  next
    case (Num n)
    with c assms have "toString m = toString n" by (simp add: cell_text_def)
    then have "m = n" by (rule toString_inj)
    with c Num show ?thesis by simp
  qed
qed

section \<open>The groups of the grouping\<close>

lemma toString_chars: "\<forall>c \<in> set (toString i). c \<noteq> CHR ''_''"
  using show_nat_digits is_digit_not_sign by (auto simp: toString_def)

lemma split_first_underscore:
  assumes "\<forall>x \<in> set a. x \<noteq> CHR ''_''" "\<forall>x \<in> set c. x \<noteq> CHR ''_''"
    and "a @ CHR ''_'' # b = c @ CHR ''_'' # d"
  shows "a = c \<and> b = d"
proof -
  have "takeWhile (\<lambda>x. x \<noteq> CHR ''_'') (a @ CHR ''_'' # b) = a"
    using assms(1) by (simp add: takeWhile_tail)
  moreover have "takeWhile (\<lambda>x. x \<noteq> CHR ''_'') (c @ CHR ''_'' # d) = c"
    using assms(2) by (simp add: takeWhile_tail)
  ultimately have "a = c" using assms(3) by simp
  with assms(3) show ?thesis by simp
qed

lemma job_key_inj:
  "job_key i = job_key j \<longleftrightarrow> job.productId i = job.productId j \<and> job.machineId i = job.machineId j"
proof
  assume "job_key i = job_key j"
  then have "toString (job.productId i) @ CHR ''_'' # (CHR ''_'' # toString (job.machineId i))
    = toString (job.productId j) @ CHR ''_'' # (CHR ''_'' # toString (job.machineId j))"
    by (simp add: job_key_def)
  from split_first_underscore [OF toString_chars toString_chars this]
  show "job.productId i = job.productId j \<and> job.machineId i = job.machineId j"
    by (auto dest: toString_inj)
next
  assume "job.productId i = job.productId j \<and> job.machineId i = job.machineId j"
  then show "job_key i = job_key j" by (simp add: job_key_def)
qed

lemma map_of_push_job:
  "map_of (push_job gs k j) =
    (map_of gs)(k \<mapsto> (case map_of gs k of None \<Rightarrow> [j] | Some g \<Rightarrow> g @ [j]))"
  by (induction gs) (auto simp: fun_eq_iff)

lemma keys_push_job:
  "set (map fst (push_job gs k j)) = insert k (set (map fst gs))
   \<and> (distinct (map fst gs) \<longrightarrow> distinct (map fst (push_job gs k j)))"
proof (induction gs)
  case Nil
  show ?case by simp
next
  case (Cons p gs)
  obtain k' g' where p: "p = (k', g')" by (cases p)
  show ?case
  proof (cases "k' = k")
    case True
    with p show ?thesis by auto
  next
    case False
    with p Cons.IH show ?thesis by auto
  qed
qed

lemma distinct_keys_jobGroups: "distinct (map fst (jobGroups jobs))"
proof (induction jobs rule: rev_induct)
  case Nil
  show ?case by (simp add: jobGroups_def)
next
  case (snoc j jobs)
  with keys_push_job [of "jobGroups jobs" "job_key j" j] show ?case
    by (simp add: jobGroups_snoc add_job_def)
qed

lemma map_of_jobGroups:
  "map_of (jobGroups jobs) k =
    (if filter (\<lambda>j. resolved j \<and> job_key j = k) jobs = [] then None
     else Some (filter (\<lambda>j. resolved j \<and> job_key j = k) jobs))"
proof (induction jobs rule: rev_induct)
  case Nil
  show ?case by (simp add: jobGroups_def)
next
  case (snoc j jobs)
  show ?case
  proof (cases "resolved j")
    case False
    then have "jobGroups (jobs @ [j]) = jobGroups jobs"
      by (auto simp: jobGroups_snoc add_job_def resolved_def)
    with False snoc show ?thesis by simp
  next
    case True
    then have "jobGroups (jobs @ [j]) = push_job (jobGroups jobs) (job_key j) j"
      by (auto simp: jobGroups_snoc add_job_def resolved_def)
    with True snoc show ?thesis
      by (auto simp: map_of_push_job)
  qed
qed

lemma jobGroups_group:
  assumes "(k, g) \<in> set (jobGroups jobs)"
  shows "\<exists>p m. g = filter (\<lambda>j. resolved j \<and> job.productId j = p \<and> job.machineId j = m) jobs"
proof -
  from assms distinct_keys_jobGroups [of jobs] have "map_of (jobGroups jobs) k = Some g"
    by simp
  then have g: "g = filter (\<lambda>j. resolved j \<and> job_key j = k) jobs" and ne: "g \<noteq> []"
    by (auto simp: map_of_jobGroups split: if_splits)
  from ne obtain j0 where "j0 \<in> set g" by (cases g) auto
  with g have k: "job_key j0 = k" by auto
  have "g = filter (\<lambda>j. resolved j \<and> job.productId j = job.productId j0
      \<and> job.machineId j = job.machineId j0) jobs"
    unfolding g k [symmetric] by (simp add: job_key_inj)
  then show ?thesis by blast
qed

section \<open>The rows of the reconciler hold no separator\<close>

lemma tidy_matched_row: "matched_row tz onJob offJob q = Inr r \<Longrightarrow> tidy r"
  by (auto simp: matched_row_def Let_def tidy_def bar_free_hhmm bar_free_isoDate
      bar_free_getMachineNumber split: option.splits)

lemma tidy_unmatched_row: "unmatched_row tz onJob q = Inr r \<Longrightarrow> tidy r"
  by (auto simp: unmatched_row_def Let_def tidy_def bar_free_hhmm bar_free_isoDate
      bar_free_getMachineNumber bar_free_simps split: option.splits)

lemma tidy_pair_emit:
  assumes "pair_emit tz s = Inr s1" and "\<forall>r \<in> set (pushed s). tidy r"
  shows "\<forall>r \<in> set (pushed s1). tidy r"
  using assms
  by (auto simp: pair_emit_def Let_def split: option.splits if_splits sum.splits
      dest: tidy_matched_row)

lemma tidy_pair_loop:
  assumes "pair_loop tz s = Inr (ex, s')" and "\<forall>r \<in> set (pushed s). tidy r"
  shows "\<forall>r \<in> set (pushed s'). tidy r"
  using assms
proof (induction tz s rule: pair_loop.induct)
  case (1 tz s)
  show ?case
  proof (cases "loop_cond s")
    case False
    with "1.prems" show ?thesis by (simp add: pair_loop.simps)
  next
    case True
    with "1.prems"(1) obtain s1 oc where e: "pair_emit tz s = Inr s1"
      and st: "pair_step tz s = Inr oc" and oc: "oc = pair_advance s1"
      by (subst (asm) pair_loop.simps) (auto simp: pair_step_def split: sum.splits)
    note t1 = tidy_pair_emit [OF e "1.prems"(2)]
    show ?thesis
    proof (cases oc)
      case (Break s2)
      with "1.prems"(1) True st have "s' = s2"
        by (subst (asm) pair_loop.simps) simp
      with Break oc pair_advance_jobs [of s1 s2] t1 show ?thesis by simp
    next
      case (Continue s2)
      with "1.prems"(1) True st have lp: "pair_loop tz s2 = Inr (ex, s')"
        by (subst (asm) pair_loop.simps) simp
      from Continue oc pair_advance_jobs [of s1 s2] t1 have "\<forall>r \<in> set (pushed s2). tidy r"
        by simp
      from "1.IH" [OF True st Continue lp this] show ?thesis .
    qed
  qed
qed

lemma tidy_leftover:
  assumes "leftover tz js rows = Inr rs" and "\<forall>r \<in> set rows. tidy r"
  shows "\<forall>r \<in> set rs. tidy r"
  using assms
proof (induction js arbitrary: rows)
  case Nil
  then show ?case by simp
next
  case (Cons j js)
  show ?case
  proof (cases "remaining j")
    case None
    with Cons show ?thesis by simp
  next
    case (Some n)
    show ?thesis
    proof (cases "0 < n")
      case False
      with Some Cons show ?thesis by simp
    next
      case True
      with Some Cons.prems(1) obtain r where r: "unmatched_row tz j n = Inr r"
        and l: "leftover tz js (rows @ [r]) = Inr rs"
        by (auto split: sum.splits)
      from tidy_unmatched_row [OF r] Cons.prems(2) have "\<forall>x \<in> set (rows @ [r]). tidy x"
        by simp
      from Cons.IH [OF l this] show ?thesis .
    qed
  qed
qed

lemma tidy_reconcile_group:
  assumes "reconcile_group tz g = Inr rs"
  shows "\<forall>r \<in> set rs. tidy r"
proof -
  from assms obtain ex s where lp: "pair_loop tz (init_state g) = Inr (ex, s)"
    and l: "leftover tz (drop (onIdx s) (onJobs s)) (pushed s) = Inr rs"
    by (auto simp: reconcile_group_def split: sum.splits)
  from tidy_pair_loop [OF lp] have "\<forall>r \<in> set (pushed s). tidy r"
    by (simp add: init_state_sums)
  from tidy_leftover [OF l this] show ?thesis .
qed

lemma tidy_forEach_group:
  assumes "forEach_group tz gs acc = Inr rs" and "\<forall>r \<in> set acc. tidy r"
  shows "\<forall>r \<in> set rs. tidy r"
  using assms
proof (induction gs arbitrary: acc)
  case Nil
  then show ?case by simp
next
  case (Cons g gs)
  from Cons.prems(1) obtain rg where rg: "reconcile_group tz g = Inr rg"
    and f: "forEach_group tz gs (acc @ rg) = Inr rs"
    by (auto split: sum.splits)
  from tidy_reconcile_group [OF rg] Cons.prems(2) have "\<forall>r \<in> set (acc @ rg). tidy r"
    by auto
  from Cons.IH [OF f this] show ?case .
qed

lemma tidy_all_rows: "all_rows tz jobs = Inr rs \<Longrightarrow> \<forall>r \<in> set rs. tidy r"
  unfolding all_rows_def by (erule tidy_forEach_group) simp

section \<open>The merge as a function of the keys\<close>

lemma groupedRowsObj_snoc:
  "groupedRowsObj (rs @ [r]) = merge_row (groupedRowsObj rs) (groupKey r) r"
  by (simp add: groupedRowsObj_def)

lemma keys_merge_row:
  "map fst (merge_row obj k r) = (if k \<in> set (map fst obj) then map fst obj else map fst obj @ [k])"
proof (induction obj)
  case Nil
  show ?case by simp
next
  case (Cons p obj)
  obtain k' r' where p: "p = (k', r')" by (cases p)
  show ?case
  proof (cases "k' = k")
    case True
    with p show ?thesis by simp
  next
    case False
    show ?thesis
    proof (cases "k \<in> set (map fst obj)")
      case True
      with False p Cons.IH show ?thesis by simp
    next
      case nin: False
      with False p Cons.IH show ?thesis by simp
    qed
  qed
qed

lemma map_of_merge_row:
  "map_of (merge_row obj k r) =
    (map_of obj)(k \<mapsto> (case map_of obj k of None \<Rightarrow> r
       | Some r' \<Rightarrow> r'\<lparr>row.quantity := row.quantity r' + row.quantity r\<rparr>))"
  by (induction obj) (auto simp: fun_eq_iff)

lemma first_seen_snoc:
  "first_seen (xs @ [k]) = (if k \<in> set xs then first_seen xs else first_seen xs @ [k])"
proof (induction xs rule: first_seen.induct)
  case 1
  show ?case by simp
next
  case (2 x xs)
  show ?case
  proof (cases "k = x")
    case True
    then show ?thesis by simp
  next
    case False
    with "2.IH" show ?thesis by simp
  qed
qed

lemma keys_groupedRowsObj: "map fst (groupedRowsObj rs) = first_seen (map groupKey rs)"
proof (induction rs rule: rev_induct)
  case Nil
  show ?case by (simp add: groupedRowsObj_def)
next
  case (snoc r rs)
  have "set (first_seen ks) = set ks" for ks :: "string list"
    by (induction ks rule: first_seen.induct) auto
  with snoc show ?case
    by (simp add: groupedRowsObj_snoc keys_merge_row first_seen_snoc)
qed

lemma set_first_seen: "set (first_seen xs) = set xs"
  by (induction xs rule: first_seen.induct) auto

lemma distinct_first_seen: "distinct (first_seen xs)"
  by (induction xs rule: first_seen.induct) (auto simp: set_first_seen)

lemma first_seen_map:
  "inj_on f (set xs) \<Longrightarrow> first_seen (map f xs) = map f (first_seen xs)"
proof (induction xs rule: first_seen.induct)
  case 1
  show ?case by simp
next
  case (2 x xs)
  from "2.prems" have r: "removeAll (f x) (map f xs) = map f (removeAll x xs)"
    by (auto simp: removeAll_filter_not_eq filter_map comp_def inj_on_def intro!: arg_cong [where f = "map f"] filter_cong)
  from "2.prems" have "inj_on f (set (removeAll x xs))"
    by (auto simp: inj_on_def)
  with "2.IH" r show ?case by simp
qed

lemma row_fields_quantity_update [simp]: "row_fields (r\<lparr>row.quantity := q\<rparr>) = row_fields r"
  by (simp add: row_fields_def)

lemma row_texts_quantity_update [simp]: "row_texts (r\<lparr>row.quantity := q\<rparr>) = row_texts r"
  by (simp add: row_texts_def)

lemma qty_sum_append: "qty_sum (xs @ ys) = qty_sum xs + qty_sum ys"
  by (simp add: qty_sum_def)

lemma values_groupedRowsObj:
  assumes "map_of (groupedRowsObj rs) k = Some x"
  shows "row.quantity x = qty_sum (filter (\<lambda>r. groupKey r = k) rs)
     \<and> (\<exists>r \<in> set rs. groupKey r = k \<and> row_fields x = row_fields r)"
  using assms
proof (induction rs arbitrary: x rule: rev_induct)
  case Nil
  then show ?case by (simp add: groupedRowsObj_def)
next
  case (snoc r rs)
  let ?obj = "groupedRowsObj rs"
  from snoc.prems have m: "((map_of ?obj)(groupKey r \<mapsto> (case map_of ?obj (groupKey r) of None \<Rightarrow> r
       | Some r' \<Rightarrow> r'\<lparr>row.quantity := row.quantity r' + row.quantity r\<rparr>))) k = Some x"
    by (simp add: groupedRowsObj_snoc map_of_merge_row)
  show ?case
  proof (cases "k = groupKey r")
    case False
    with m have "map_of ?obj k = Some x" by simp
    from snoc.IH [OF this] False show ?thesis by (auto simp: qty_sum_def)
  next
    case True
    show ?thesis
    proof (cases "map_of ?obj k")
      case None
      then have "k \<notin> set (map fst ?obj)" by (simp add: map_of_eq_None_iff)
      then have "k \<notin> set (map groupKey rs)"
        by (simp add: keys_groupedRowsObj set_first_seen)
      then have "filter (\<lambda>r. groupKey r = k) rs = []"
        by (auto simp: filter_empty_conv)
      with m True None show ?thesis by (simp add: qty_sum_def)
    next
      case (Some y)
      from snoc.IH [OF Some] m True Some show ?thesis
        by (auto simp: qty_sum_def)
    qed
  qed
qed

lemma pairs_groupedRowsObj:
  assumes "(k, x) \<in> set (groupedRowsObj rs)"
  shows "groupKey x = k \<and> row.quantity x = qty_sum (filter (\<lambda>r. groupKey r = k) rs)
     \<and> (\<exists>r \<in> set rs. groupKey r = k \<and> row_fields x = row_fields r)"
proof -
  have "distinct (map fst (groupedRowsObj rs))"
    by (simp add: keys_groupedRowsObj distinct_first_seen)
  with assms have "map_of (groupedRowsObj rs) k = Some x" by simp
  from values_groupedRowsObj [OF this] show ?thesis
    by (auto dest: groupKey_fields)
qed

lemma merged_keys: "map groupKey (map snd (groupedRowsObj rs)) = map fst (groupedRowsObj rs)"
  by (auto dest: pairs_groupedRowsObj)

lemma tidy_fields: "tidy r' \<Longrightarrow> row_fields r = row_fields r' \<Longrightarrow> tidy r"
  by (simp add: row_fields_def tidy_def)

lemma merged_texts_order:
  assumes "\<forall>r \<in> set rs. tidy r"
  shows "map row_texts (map snd (groupedRowsObj rs)) = first_seen (map row_texts rs)"
proof -
  let ?out = "map snd (groupedRowsObj rs)"
  have sub: "\<forall>x \<in> set ?out. \<exists>r \<in> set rs. row_fields x = row_fields r"
  proof
    fix x assume "x \<in> set ?out"
    then obtain k where "(k, x) \<in> set (groupedRowsObj rs)" by auto
    from pairs_groupedRowsObj [OF this] show "\<exists>r \<in> set rs. row_fields x = row_fields r"
      by blast
  qed
  have k: "groupKey a = groupKey b \<longleftrightarrow> row_texts a = row_texts b"
    if "a \<in> set ?out \<union> set rs" "b \<in> set ?out \<union> set rs" for a b
  proof -
    have t: "tidy c" if "c \<in> set ?out \<union> set rs" for c
    proof (cases "c \<in> set rs")
      case True
      with assms show ?thesis by simp
    next
      case False
      with that sub obtain r where "r \<in> set rs" "row_fields c = row_fields r" by auto
      with assms show ?thesis by (auto intro: tidy_fields)
    qed
    from t [OF that(1)] t [OF that(2)] groupKey_inj [of a b] groupKey_texts [of a b]
    show ?thesis by blast
  qed
  define kf where "kf = (\<lambda>f. groupKey (SOME r. r \<in> set ?out \<union> set rs \<and> row_texts r = f))"
  have kf: "kf (row_texts a) = groupKey a" if "a \<in> set ?out \<union> set rs" for a
  proof -
    have "\<exists>r. r \<in> set ?out \<union> set rs \<and> row_texts r = row_texts a" using that by blast
    then have "(SOME r. r \<in> set ?out \<union> set rs \<and> row_texts r = row_texts a) \<in> set ?out \<union> set rs
      \<and> row_texts (SOME r. r \<in> set ?out \<union> set rs \<and> row_texts r = row_texts a) = row_texts a"
      by (rule someI_ex)
    with k [OF _ that] show ?thesis unfolding kf_def by blast
  qed
  have injkf: "inj_on kf (row_texts ` (set ?out \<union> set rs))"
  proof (rule inj_onI)
    fix u v
    assume "u \<in> row_texts ` (set ?out \<union> set rs)" "v \<in> row_texts ` (set ?out \<union> set rs)"
      and e: "kf u = kf v"
    then obtain a b where a: "a \<in> set ?out \<union> set rs" "u = row_texts a"
      and b: "b \<in> set ?out \<union> set rs" "v = row_texts b"
      by blast
    from e a b have "groupKey a = groupKey b" by (simp only: kf)
    with k [OF a(1) b(1)] a(2) b(2) show "u = v" by simp
  qed
  have "map kf (map row_texts ?out) = map groupKey ?out"
    by (simp add: kf)
  also have "\<dots> = first_seen (map groupKey rs)"
    by (simp only: merged_keys keys_groupedRowsObj)
  also have "map groupKey rs = map kf (map row_texts rs)"
    by (simp add: kf)
  also have "first_seen \<dots> = map kf (first_seen (map row_texts rs))"
    by (rule first_seen_map) (rule inj_on_subset [OF injkf], auto)
  finally have e: "map kf (map row_texts ?out) = map kf (first_seen (map row_texts rs))" .
  have "inj_on kf (set (map row_texts ?out) \<union> set (first_seen (map row_texts rs)))"
    by (rule inj_on_subset [OF injkf]) (auto simp: set_first_seen)
  from inj_on_map_eq_map [OF this] e show ?thesis by blast
qed

lemma merged_quantities:
  assumes "\<forall>r \<in> set rs. tidy r" and "x \<in> set (map snd (groupedRowsObj rs))"
  shows "row.quantity x = qty_sum (filter (\<lambda>r. row_texts r = row_texts x) rs)"
proof -
  from assms(2) obtain k where "(k, x) \<in> set (groupedRowsObj rs)" by auto
  from pairs_groupedRowsObj [OF this] obtain r0 where
    k: "groupKey x = k" and q: "row.quantity x = qty_sum (filter (\<lambda>r. groupKey r = k) rs)"
    and r0: "r0 \<in> set rs" "row_fields x = row_fields r0"
    by blast
  from r0 assms(1) have tx: "tidy x" by (auto intro: tidy_fields)
  have "(groupKey r = k) = (row_texts r = row_texts x)" if "r \<in> set rs" for r
  proof -
    from that assms(1) have "tidy r" by simp
    with tx k groupKey_inj [of r x] groupKey_texts [of r x] show ?thesis by auto
  qed
  then have "filter (\<lambda>r. groupKey r = k) rs = filter (\<lambda>r. row_texts r = row_texts x) rs"
    by (intro filter_cong refl)
  with q show ?thesis by simp
qed

lemma groupedRowsObj_two:
  "map snd (groupedRowsObj [r1, r2]) =
    (if groupKey r1 = groupKey r2 then [r1\<lparr>row.quantity := row.quantity r1 + row.quantity r2\<rparr>]
     else [r1, r2])"
  by (simp add: groupedRowsObj_def)

lemma groupedRowsObj_not_Nil: "rs \<noteq> [] \<Longrightarrow> groupedRowsObj rs \<noteq> []"
proof -
  assume "rs \<noteq> []"
  then have "set (map fst (groupedRowsObj rs)) \<noteq> {}"
    by (simp add: keys_groupedRowsObj set_first_seen)
  then show ?thesis by auto
qed

section \<open>Conservation of quantity\<close>

text \<open>
  Claim C1. Every group of the grouping holds the jobs of one product on one machine
  (those whose relations are present). When the quantity of every job is a non-negative
  integer, the reconciler returns rows for the group, and the sum of their quantities
  (rows of pairs and rows of unmatched ON jobs) is the sum of the quantities of the ON
  jobs of the group. The OFF jobs do not enter the sum.
\<close>

theorem quantity_conservation:
  assumes "\<forall>j \<in> set jobs. whole_quantity j" and "(k, g) \<in> set (jobGroups jobs)"
  shows "(\<exists>p m. g = filter (\<lambda>j. resolved j \<and> job.productId j = p \<and> job.machineId j = m) jobs)
    \<and> (\<exists>rs. reconcile_group tz g = Inr rs \<and> qty_sum rs = on_total g)"
proof -
  from assms jobGroups_members [OF assms(2)]
  have "\<forall>j \<in> set g. resolved j \<and> whole_quantity j" by blast
  from reconcile_group_shape [OF this, of tz]
  have "\<exists>rs. reconcile_group tz g = Inr rs \<and> qty_sum rs = on_total g"
    by (auto simp: qty_sum_def)
  with jobGroups_group [OF assms(2)] show ?thesis by blast
qed

theorem quantity_conservation_witness:
  "list_all whole_quantity split_group
   \<and> (''7__3'', split_group) \<in> set (jobGroups split_group)
   \<and> (\<exists>rs. reconcile_group utc split_group = Inr rs \<and> qty_sum rs = on_total split_group)
   \<and> on_total split_group = 10"
proof -
  have h1: "list_all whole_quantity split_group" by code_simp
  have h2: "(''7__3'', split_group) \<in> set (jobGroups split_group)" by code_simp
  have h3: "on_total split_group = 10" by code_simp
  from h1 have "\<forall>j \<in> set split_group. whole_quantity j" by (simp add: list_all_iff)
  from quantity_conservation [OF this h2, of utc] h1 h2 h3 show ?thesis by simp
qed

section \<open>Rows are merged exactly when the texts of their other fields are equal\<close>

text \<open>
  Claim C2, as stated, fails: the rows are compared through the key of \<open>join\<close>, that is
  as texts, and a row whose label is the number 5 (a product without a name) is merged
  with a row whose label is the string \<open>5\<close>, although the two rows differ in that field.
  The jobs \<open>unnamed_five\<close> and \<open>named_five\<close> give these two rows, and the merge gives one
  row of quantity 7.
\<close>

theorem merge_exact_tuple_counterexample:
  "all_rows utc [unnamed_five, named_five] = Inr [number_row, string_row]
   \<and> row_fields number_row \<noteq> row_fields string_row
   \<and> groupKey number_row = groupKey string_row
   \<and> map snd (groupedRowsObj [number_row, string_row]) = [number_row\<lparr>row.quantity := 7\<rparr>]"
proof -
  have 1: "all_rows utc [unnamed_five, named_five] = Inr [number_row, string_row]"
    by code_simp
  have 2: "row_fields number_row \<noteq> row_fields string_row"
    by (simp add: row_fields_def number_row_def string_row_def)
  have 3: "groupKey number_row = groupKey string_row"
    by code_simp
  have 4: "map snd (groupedRowsObj [number_row, string_row]) = [number_row\<lparr>row.quantity := 7\<rparr>]"
    by code_simp
  from 1 2 3 4 show ?thesis by blast
qed

text \<open>
  Claim C2, amended. Let \<open>rs\<close> be the rows of the reconciler for the jobs of a report,
  and compare the fields other than the quantity (label, machine number, date, ON time,
  OFF time, total time) with the label as the text that \<open>join\<close> makes of it. The merged
  rows hold every such tuple of \<open>rs\<close> exactly once, and the quantity of a merged row is
  the sum of the quantities of the rows of \<open>rs\<close> with its tuple. Two rows of \<open>rs\<close> on
  their own are merged into one row with the sum of their quantities when their tuples
  are equal, and both are kept when the tuples differ. Two rows with equal tuples hold
  the same fields, unless the label of one is a number and the label of the other the
  decimal text of that number.
\<close>

theorem merge_exactly_equal_texts:
  assumes "all_rows tz jobs = Inr rs"
  shows "distinct (map row_texts (map snd (groupedRowsObj rs)))
    \<and> set (map row_texts (map snd (groupedRowsObj rs))) = set (map row_texts rs)
    \<and> (\<forall>x \<in> set (map snd (groupedRowsObj rs)).
          row.quantity x = qty_sum (filter (\<lambda>r. row_texts r = row_texts x) rs))
    \<and> (\<forall>r1 \<in> set rs. \<forall>r2 \<in> set rs.
          map snd (groupedRowsObj [r1, r2]) =
            (if row_texts r1 = row_texts r2
             then [r1\<lparr>row.quantity := row.quantity r1 + row.quantity r2\<rparr>]
             else [r1, r2]))
    \<and> (\<forall>r1 r2. row_texts r1 = row_texts r2 \<longrightarrow>
          row_fields r1 = row_fields r2
          \<or> (\<exists>n. (row.productId r1 = Num n \<and> row.productId r2 = Str (toString n))
                \<or> (row.productId r1 = Str (toString n) \<and> row.productId r2 = Num n)))"
proof -
  from tidy_all_rows [OF assms] have t: "\<forall>r \<in> set rs. tidy r" .
  from merged_texts_order [OF t]
  have o: "map row_texts (map snd (groupedRowsObj rs)) = first_seen (map row_texts rs)" .
  have 1: "distinct (map row_texts (map snd (groupedRowsObj rs)))"
    by (simp only: o distinct_first_seen)
  have 2: "set (map row_texts (map snd (groupedRowsObj rs))) = set (map row_texts rs)"
    by (simp only: o set_first_seen)
  have 3: "\<forall>x \<in> set (map snd (groupedRowsObj rs)).
          row.quantity x = qty_sum (filter (\<lambda>r. row_texts r = row_texts x) rs)"
    using merged_quantities [OF t] by blast
  have 4: "map snd (groupedRowsObj [r1, r2]) =
            (if row_texts r1 = row_texts r2
             then [r1\<lparr>row.quantity := row.quantity r1 + row.quantity r2\<rparr>]
             else [r1, r2])" if "r1 \<in> set rs" "r2 \<in> set rs" for r1 r2
  proof -
    from that t have "tidy r1" "tidy r2" by simp_all
    with groupKey_inj [of r1 r2] groupKey_texts [of r1 r2]
    have "(groupKey r1 = groupKey r2) = (row_texts r1 = row_texts r2)" by blast
    then show ?thesis by (simp only: groupedRowsObj_two)
  qed
  have 5: "row_fields r1 = row_fields r2
          \<or> (\<exists>n. (row.productId r1 = Num n \<and> row.productId r2 = Str (toString n))
                \<or> (row.productId r1 = Str (toString n) \<and> row.productId r2 = Num n))"
    if "row_texts r1 = row_texts r2" for r1 r2
  proof -
    from that have c: "cell_text (row.productId r1) = cell_text (row.productId r2)"
      and rest: "machineNumber r1 = machineNumber r2" "date r1 = date r2" "onTime r1 = onTime r2"
        "offTime r1 = offTime r2" "totalTime r1 = totalTime r2"
      by (simp_all add: row_texts_def)
    from cell_text_eq [OF c] rest show ?thesis
      by (auto simp: row_fields_def)
  qed
  from 1 2 3 4 5 show ?thesis by blast
qed

theorem merge_exactly_equal_texts_witness:
  "all_rows utc twin_jobs = Inr (split_rows @ split_rows)
   \<and> map snd (groupedRowsObj (split_rows @ split_rows)) =
       [(split_rows ! 0)\<lparr>row.quantity := 8\<rparr>, (split_rows ! 1)\<lparr>row.quantity := 12\<rparr>]
   \<and> distinct (map row_texts (map snd (groupedRowsObj (split_rows @ split_rows))))
   \<and> set (map row_texts (map snd (groupedRowsObj (split_rows @ split_rows))))
       = set (map row_texts (split_rows @ split_rows))"
proof -
  have h: "all_rows utc twin_jobs = Inr (split_rows @ split_rows)" by code_simp
  have e: "map snd (groupedRowsObj (split_rows @ split_rows)) =
       [(split_rows ! 0)\<lparr>row.quantity := 8\<rparr>, (split_rows ! 1)\<lparr>row.quantity := 12\<rparr>]"
    by code_simp
  from merge_exactly_equal_texts [OF h] h e show ?thesis by blast
qed

section \<open>The pairing loop never takes its \<open>break\<close>\<close>

text \<open>
  Claim C3. For a group of the grouping whose jobs all have a non-negative integer as
  quantity, the \<open>while\<close> loop ends because its condition fails, never by \<open>break\<close>.
  Moreover, in every iteration that the loop runs, after the block that subtracts
  \<open>pairQty\<close> one of the two remaining counters at the indices is zero, the chain of tests
  takes one of its first three branches, and the sum of the two indices grows.
\<close>

theorem pairing_always_advances:
  assumes "\<forall>j \<in> set jobs. whole_quantity j" and "(k, g) \<in> set (jobGroups jobs)"
  shows "(\<exists>s'. pair_loop tz (init_state g) = Inr (Exhausted, s'))
    \<and> (\<forall>n s. loop_head tz n (init_state g) = Some s \<and> loop_cond s \<longrightarrow>
          (\<exists>s1 s'. pair_emit tz s = Inr s1
             \<and> (remaining (onJobs s1 ! onIdx s1) = Some 0
                  \<or> remaining (offJobs s1 ! offIdx s1) = Some 0)
             \<and> pair_advance s1 = Continue s'
             \<and> onIdx s + offIdx s < onIdx s' + offIdx s'))"
proof -
  from assms jobGroups_members [OF assms(2)]
  have "\<forall>j \<in> set g. resolved j \<and> whole_quantity j" by blast
  then have inv: "loop_inv (init_state g)" by (rule init_state_inv)
  from pair_loop_inv [OF inv, of tz] have "\<exists>s'. pair_loop tz (init_state g) = Inr (Exhausted, s')"
    by blast
  moreover have "\<exists>s1 s'. pair_emit tz s = Inr s1
             \<and> (remaining (onJobs s1 ! onIdx s1) = Some 0
                  \<or> remaining (offJobs s1 ! offIdx s1) = Some 0)
             \<and> pair_advance s1 = Continue s'
             \<and> onIdx s + offIdx s < onIdx s' + offIdx s'"
    if "loop_head tz n (init_state g) = Some s" and "loop_cond s" for n s
  proof -
    from loop_head_inv [OF that(1) inv] have "loop_inv s" .
    from pair_step_inv [OF this that(2), of tz] show ?thesis by blast
  qed
  ultimately show ?thesis by blast
qed

theorem pairing_always_advances_witness:
  "list_all whole_quantity split_group
   \<and> (''7__3'', split_group) \<in> set (jobGroups split_group)
   \<and> (\<exists>s'. pair_loop utc (init_state split_group) = Inr (Exhausted, s'))
   \<and> (\<exists>s. loop_head utc 1 (init_state split_group) = Some s \<and> loop_cond s
         \<and> onIdx s = 0 \<and> offIdx s = 1)"
proof -
  have h1: "list_all whole_quantity split_group" by code_simp
  have h2: "(''7__3'', split_group) \<in> set (jobGroups split_group)" by code_simp
  have h3: "case loop_head utc 1 (init_state split_group) of
      Some s \<Rightarrow> loop_cond s \<and> onIdx s = 0 \<and> offIdx s = 1 | None \<Rightarrow> False"
    by code_simp
  from h1 have "\<forall>j \<in> set split_group. whole_quantity j" by (simp add: list_all_iff)
  from pairing_always_advances [OF this h2, of utc] h1 h2 h3 show ?thesis
    by (auto split: option.splits simp del: loop_head.simps)
qed

section \<open>The partial split\<close>

text \<open>
  Claim C4. Let a group hold one ON job of quantity 10 and, in the order of the sort, two
  OFF jobs of quantities 4 and 6; let the ON job start at 09:00, and the OFF jobs close
  at 09:15 and at 09:45, 15 and 45 minutes later. Then the reconciler returns exactly two
  rows: quantity 4 from 09:00 to 09:15 with total 15, and quantity 6 from 09:00 to 09:45
  with total 45.
\<close>

theorem partial_quantity_split:
  assumes ons: "filter (\<lambda>j. job.state j = ''ON'') (sort_key job.createdAt g) = [on]"
    and offs: "filter (\<lambda>j. job.state j = ''OFF'') (sort_key job.createdAt g) = [off1, off2]"
    and r: "resolved on"
    and q: "job.quantity on = Some 10" "job.quantity off1 = Some 4" "job.quantity off2 = Some 6"
    and t0: "hhmm tz (setSeconds0 (job.createdAt on)) = ''09:00''"
    and t1: "hhmm tz (setSeconds0 (closeTime off1)) = ''09:15''"
      "setSeconds0 (closeTime off1) - setSeconds0 (job.createdAt on) = 15 * 60000"
    and t2: "hhmm tz (setSeconds0 (closeTime off2)) = ''09:45''"
      "setSeconds0 (closeTime off2) - setSeconds0 (job.createdAt on) = 45 * 60000"
  shows "\<exists>r1 r2. reconcile_group tz g = Inr [r1, r2]
     \<and> row.quantity r1 = 4 \<and> onTime r1 = ''09:00'' \<and> offTime r1 = ''09:15'' \<and> totalTime r1 = Some 15
     \<and> row.quantity r2 = 6 \<and> onTime r2 = ''09:00'' \<and> offTime r2 = ''09:45'' \<and> totalTime r2 = Some 45"
proof -
  let ?on = "with_remaining on" and ?off1 = "with_remaining off1" and ?off2 = "with_remaining off2"
  let ?s0 = "\<lparr>onJobs = [?on], offJobs = [?off1, ?off2], onIdx = 0, offIdx = 0, pushed = []\<rparr>"
  have i: "init_state g = ?s0"
    using init_state_filters [OF ons offs] by simp
  have ct: "closeTime (with_remaining j) = closeTime j" "job.createdAt (with_remaining j) = job.createdAt j" for j
    by (simp_all add: closeTime_def with_remaining_def job.defs split: option.splits)
  have ct': "closeTime (take_off x p) = closeTime p" "job.createdAt (take_off x p) = job.createdAt p"
      "job.machine (take_off x p) = job.machine p" "job.product (take_off x p) = job.product p" for x p
    by (simp_all add: closeTime_def take_off_def split: option.splits)
  from r obtain m p where mp: "job.machine on = Some m" "job.product on = Some p"
    by (auto simp: resolved_def)
  then have mp': "job.machine ?on = Some m" "job.product ?on = Some p"
    by (simp_all add: with_remaining_def job.defs)
  obtain r1 where r1: "matched_row tz ?on ?off1 4 = Inr r1"
    "row.quantity r1 = 4" "onTime r1 = ''09:00''" "offTime r1 = ''09:15''" "totalTime r1 = Some 15"
    using mp' t0 t1 by (simp add: matched_row_def Let_def ct roundMinutes_def)
  obtain r2 where r2: "matched_row tz (take_off 4 ?on) ?off2 6 = Inr r2"
    "row.quantity r2 = 6" "onTime r2 = ''09:00''" "offTime r2 = ''09:45''" "totalTime r2 = Some 45"
    using mp' t0 t2 by (simp add: matched_row_def Let_def ct ct' roundMinutes_def)
  let ?s1 = "\<lparr>onJobs = [take_off 4 ?on], offJobs = [take_off 4 ?off1, ?off2],
     onIdx = 0, offIdx = 0, pushed = [r1]\<rparr>"
  have e1: "pair_emit tz ?s0 = Inr ?s1"
    using q r1(1) by (simp add: pair_emit_def math_min_def with_remaining_simps Let_def)
  have a1: "pair_advance ?s1 = Continue (?s1\<lparr>offIdx := 1\<rparr>)"
    using q by (simp add: pair_advance_def take_off_with_remaining)
  let ?s2 = "\<lparr>onJobs = [take_off 6 (take_off 4 ?on)], offJobs = [take_off 4 ?off1, take_off 6 ?off2],
     onIdx = 0, offIdx = 1, pushed = [r1, r2]\<rparr>"
  have e2: "pair_emit tz (?s1\<lparr>offIdx := 1\<rparr>) = Inr ?s2"
    using q r2(1)
    by (simp add: pair_emit_def math_min_def with_remaining_simps take_off_with_remaining Let_def)
  have a2: "pair_advance ?s2 = Continue (?s2\<lparr>onIdx := 1, offIdx := 2\<rparr>)"
    using q by (simp add: pair_advance_def Let_def with_remaining_simps remaining_take_off)
  have "pair_loop tz ?s0 = pair_loop tz (?s1\<lparr>offIdx := 1\<rparr>)"
    by (rule pair_loop_continue [OF _ e1 a1]) (simp add: loop_cond_def)
  also have "\<dots> = pair_loop tz (?s2\<lparr>onIdx := 1, offIdx := 2\<rparr>)"
    by (rule pair_loop_continue [OF _ e2 a2]) (simp add: loop_cond_def)
  also have "\<dots> = Inr (Exhausted, ?s2\<lparr>onIdx := 1, offIdx := 2\<rparr>)"
    by (rule pair_loop_exhausted) (simp add: loop_cond_def)
  finally have "reconcile_group tz g = Inr [r1, r2]"
    by (simp add: reconcile_group_def i)
  with r1 r2 show ?thesis by blast
qed

theorem partial_quantity_split_witness:
  "\<exists>r1 r2. reconcile_group utc split_group = Inr [r1, r2]
     \<and> row.quantity r1 = 4 \<and> onTime r1 = ''09:00'' \<and> offTime r1 = ''09:15'' \<and> totalTime r1 = Some 15
     \<and> row.quantity r2 = 6 \<and> onTime r2 = ''09:00'' \<and> offTime r2 = ''09:45'' \<and> totalTime r2 = Some 45"
proof -
  let ?on = "example_job ''ON'' (Some 10) 1704099600000 None"
  let ?off1 = "example_job ''OFF'' (Some 4) 1704100500000 (Some 1704100530000)"
  let ?off2 = "example_job ''OFF'' (Some 6) 1704102300000 None"
  have ons: "filter (\<lambda>j. job.state j = ''ON'') (sort_key job.createdAt split_group) = [?on]"
    by code_simp
  have offs: "filter (\<lambda>j. job.state j = ''OFF'') (sort_key job.createdAt split_group) = [?off1, ?off2]"
    by code_simp
  have r: "resolved ?on" by code_simp
  have q: "job.quantity ?on = Some 10" "job.quantity ?off1 = Some 4" "job.quantity ?off2 = Some 6"
    by code_simp+
  have t0: "hhmm utc (setSeconds0 (job.createdAt ?on)) = ''09:00''" by code_simp
  have t1: "hhmm utc (setSeconds0 (closeTime ?off1)) = ''09:15''"
    "setSeconds0 (closeTime ?off1) - setSeconds0 (job.createdAt ?on) = 15 * 60000"
    by code_simp+
  have t2: "hhmm utc (setSeconds0 (closeTime ?off2)) = ''09:45''"
    "setSeconds0 (closeTime ?off2) - setSeconds0 (job.createdAt ?on) = 45 * 60000"
    by code_simp+
  show ?thesis
    by (rule partial_quantity_split [OF ons offs r q t0 t1 t2])
qed

section \<open>Surplus OFF quantity\<close>

text \<open>
  Claim C5. The reconciler emits no row for OFF quantity without an ON job to pair it
  with. A group without ON jobs gives no row, whatever its OFF jobs. In a group of the
  grouping (quantities non-negative integers) the rows with an OFF time carry the smaller
  of the ON total and the OFF total, and the rows without an OFF time carry the rest of
  the ON total: what the OFF jobs hold beyond the ON total is in no row. A group of one
  ON job of quantity 2 and one OFF job of quantity 5 gives exactly one row, a pair of
  quantity 2.
\<close>

theorem surplus_off_emits_no_row:
  "(filter (\<lambda>j. job.state j = ''ON'') g = [] \<longrightarrow> reconcile_group tz g = Inr [])
   \<and> ((\<forall>j \<in> set jobs. whole_quantity j) \<and> (k, g) \<in> set (jobGroups jobs) \<longrightarrow>
        (\<exists>rs. reconcile_group tz g = Inr rs
           \<and> qty_sum (filter (\<lambda>r. offTime r \<noteq> '''') rs) = min (on_total g) (off_total g)
           \<and> qty_sum (filter (\<lambda>r. offTime r = '''') rs)
               = on_total g - min (on_total g) (off_total g)))
   \<and> (\<forall>on off. filter (\<lambda>j. job.state j = ''ON'') g = [on]
          \<and> filter (\<lambda>j. job.state j = ''OFF'') g = [off] \<and> resolved on
          \<and> job.quantity on = Some 2 \<and> job.quantity off = Some 5 \<longrightarrow>
        (\<exists>r. reconcile_group tz g = Inr [r] \<and> row.quantity r = 2 \<and> offTime r \<noteq> ''''))"
proof -
  have a: "reconcile_group tz g = Inr []" if "filter (\<lambda>j. job.state j = ''ON'') g = []"
    using that by (rule reconcile_no_on)
  have b: "\<exists>rs. reconcile_group tz g = Inr rs
           \<and> qty_sum (filter (\<lambda>r. offTime r \<noteq> '''') rs) = min (on_total g) (off_total g)
           \<and> qty_sum (filter (\<lambda>r. offTime r = '''') rs)
               = on_total g - min (on_total g) (off_total g)"
    if w: "\<forall>j \<in> set jobs. whole_quantity j" and kg: "(k, g) \<in> set (jobGroups jobs)"
  proof -
    from w jobGroups_members [OF kg]
    have res: "\<forall>j \<in> set g. resolved j \<and> whole_quantity j" by blast
    from reconcile_group_shape [OF res, of tz] obtain matched unmatched where
      rg: "reconcile_group tz g = Inr (matched @ unmatched)"
      and m: "\<forall>r \<in> set matched. offTime r \<noteq> ''''" and u: "\<forall>r \<in> set unmatched. offTime r = ''''"
      and s: "qty_sum matched = min (on_total g) (off_total g)"
        "qty_sum matched + qty_sum unmatched = on_total g"
      by blast
    have f1: "filter (\<lambda>r. offTime r \<noteq> '''') (matched @ unmatched) = matched"
      using m u by (simp add: filter_id_conv filter_empty_conv)
    have f2: "filter (\<lambda>r. offTime r = '''') (matched @ unmatched) = unmatched"
      using m u by (simp add: filter_id_conv filter_empty_conv)
    from rg s show ?thesis
      by (intro exI [of _ "matched @ unmatched"]) (simp only: f1 f2, simp)
  qed
  have c: "\<exists>r. reconcile_group tz g = Inr [r] \<and> row.quantity r = 2 \<and> offTime r \<noteq> ''''"
    if h: "filter (\<lambda>j. job.state j = ''ON'') g = [on]"
      "filter (\<lambda>j. job.state j = ''OFF'') g = [off]" "resolved on"
      "job.quantity on = Some 2" "job.quantity off = Some 5" for on off
  proof -
    have "filter (\<lambda>j. job.state j = ''ON'') (sort_key job.createdAt g) = [on]"
      "filter (\<lambda>j. job.state j = ''OFF'') (sort_key job.createdAt g) = [off]"
      using h(1,2) by (simp_all add: filter_sort)
    from reconcile_one_on_larger_off [OF this h(3,4,5), of tz]
    obtain r where r: "reconcile_group tz g = Inr [r]"
      "matched_row tz (with_remaining on) (with_remaining off) 2 = Inr r"
      by auto
    from matched_row_ok [of "with_remaining on" tz "with_remaining off" 2] h(3) r(2)
    have "row.quantity r = 2 \<and> offTime r \<noteq> ''''" by (auto simp: with_remaining_simps)
    with r(1) show ?thesis by blast
  qed
  from a b c show ?thesis by blast
qed

theorem surplus_off_emits_no_row_witness:
  "list_all whole_quantity surplus_group
   \<and> (''7__3'', surplus_group) \<in> set (jobGroups surplus_group)
   \<and> on_total surplus_group = 2 \<and> off_total surplus_group = 5
   \<and> (\<exists>rs. reconcile_group utc surplus_group = Inr rs
         \<and> qty_sum (filter (\<lambda>r. offTime r \<noteq> '''') rs) = 2
         \<and> qty_sum (filter (\<lambda>r. offTime r = '''') rs) = 0)
   \<and> reconcile_group utc surplus_group =
        Inr [\<lparr>row.productId = Str ''Widget'', quantity = 2, machineNumber = ''12'',
              date = ''2024-01-01'', onTime = ''09:00'', offTime = ''09:15'',
              totalTime = Some 15\<rparr>]"
proof -
  have h1: "list_all whole_quantity surplus_group" by code_simp
  have h2: "(''7__3'', surplus_group) \<in> set (jobGroups surplus_group)" by code_simp
  have h3: "on_total surplus_group = 2" "off_total surplus_group = 5" by code_simp+
  have h4: "reconcile_group utc surplus_group =
        Inr [\<lparr>row.productId = Str ''Widget'', quantity = 2, machineNumber = ''12'',
              date = ''2024-01-01'', onTime = ''09:00'', offTime = ''09:15'',
              totalTime = Some 15\<rparr>]"
    by code_simp
  from h1 have w: "\<forall>j \<in> set surplus_group. whole_quantity j" by (simp add: list_all_iff)
  from surplus_off_emits_no_row [of surplus_group utc surplus_group "''7__3''"] w h2
  have "\<exists>rs. reconcile_group utc surplus_group = Inr rs
         \<and> qty_sum (filter (\<lambda>r. offTime r \<noteq> '''') rs)
             = min (on_total surplus_group) (off_total surplus_group)
         \<and> qty_sum (filter (\<lambda>r. offTime r = '''') rs)
             = on_total surplus_group - min (on_total surplus_group) (off_total surplus_group)"
    by blast
  with h3 have "\<exists>rs. reconcile_group utc surplus_group = Inr rs
         \<and> qty_sum (filter (\<lambda>r. offTime r \<noteq> '''') rs) = 2
         \<and> qty_sum (filter (\<lambda>r. offTime r = '''') rs) = 0"
    by simp
  with h1 h2 h3 h4 show ?thesis by blast
qed

section \<open>The fallback of the worksheet\<close>

text \<open>
  Claim C6. Without jobs the worksheet holds the one row with the message. With jobs but
  no merged row, it holds one fallback row per job, in the order of the jobs and as many
  as there are jobs. (Both are followed by the blank row and the total.)
\<close>

theorem fallback_rows:
  "worksheet tz [] = Inr [Message ''No data found for the selected criteria.'', Blank, Total 0]
   \<and> (\<forall>rs. jobs \<noteq> [] \<and> all_rows tz jobs = Inr rs \<and> groupedRowsObj rs = [] \<longrightarrow>
         (\<exists>ws. worksheet tz jobs = Inr (ws @ [Blank, Total 0])
            \<and> ws = map (\<lambda>j. Data (fallback_row tz j)) jobs \<and> length ws = length jobs))"
  by (auto simp: worksheet_def all_rows_Nil groupedRowsObj_Nil Let_def)

theorem fallback_rows_witness:
  "all_rows utc [orphan_job, orphan_job] = Inr [] \<and> groupedRowsObj [] = []
   \<and> worksheet utc [orphan_job, orphan_job] =
       Inr [Data (fallback_row utc orphan_job), Data (fallback_row utc orphan_job), Blank, Total 0]"
proof -
  have h1: "all_rows utc [orphan_job, orphan_job] = Inr []" by code_simp
  have h2: "groupedRowsObj [] = []" by (simp add: groupedRowsObj_def)
  from fallback_rows [of utc "[orphan_job, orphan_job]"] h1 h2
  show ?thesis by auto
qed

section \<open>The merged rows keep the order of first occurrence\<close>

text \<open>
  Claim C7. For every list of rows, the keys of the merged rows are the keys of the
  rows in the order of their first occurrence. For the rows of the reconciler the same
  holds of the tuples of fields other than the quantity (the label as the text that
  \<open>join\<close> makes of it), and the worksheet holds the merged rows in that order.
\<close>

theorem merged_rows_first_seen_order:
  "map groupKey (map snd (groupedRowsObj rs)) = first_seen (map groupKey rs)
   \<and> (all_rows tz jobs = Inr rs \<longrightarrow>
        map row_texts (map snd (groupedRowsObj rs)) = first_seen (map row_texts rs)
        \<and> (rs \<noteq> [] \<longrightarrow> (\<exists>total.
             worksheet tz jobs = Inr (map Data (map snd (groupedRowsObj rs)) @ [Blank, Total total]))))"
proof -
  have 1: "map groupKey (map snd (groupedRowsObj rs)) = first_seen (map groupKey rs)"
    by (simp only: merged_keys keys_groupedRowsObj)
  have 2: "map row_texts (map snd (groupedRowsObj rs)) = first_seen (map row_texts rs)"
    if "all_rows tz jobs = Inr rs"
    using merged_texts_order [OF tidy_all_rows [OF that]] .
  have 3: "\<exists>total. worksheet tz jobs = Inr (map Data (map snd (groupedRowsObj rs)) @ [Blank, Total total])"
    if "all_rows tz jobs = Inr rs" "rs \<noteq> []"
    using that groupedRowsObj_not_Nil [OF that(2)]
    by (simp add: worksheet_def Let_def comp_def case_prod_beta)
  from 1 2 3 show ?thesis by blast
qed

theorem merged_rows_first_seen_order_witness:
  "all_rows utc twin_jobs = Inr (split_rows @ split_rows)
   \<and> map row_texts (map snd (groupedRowsObj (split_rows @ split_rows)))
       = first_seen (map row_texts (split_rows @ split_rows))
   \<and> first_seen (map row_texts (split_rows @ split_rows)) = map row_texts split_rows
   \<and> worksheet utc twin_jobs =
       Inr [Data ((split_rows ! 0)\<lparr>row.quantity := 8\<rparr>),
            Data ((split_rows ! 1)\<lparr>row.quantity := 12\<rparr>), Blank, Total 20]"
proof -
  have h: "all_rows utc twin_jobs = Inr (split_rows @ split_rows)" by code_simp
  have f: "first_seen (map row_texts (split_rows @ split_rows)) = map row_texts split_rows"
    by code_simp
  have w: "worksheet utc twin_jobs =
       Inr [Data ((split_rows ! 0)\<lparr>row.quantity := 8\<rparr>),
            Data ((split_rows ! 1)\<lparr>row.quantity := 12\<rparr>), Blank, Total 20]"
    by code_simp
  from merged_rows_first_seen_order [of "split_rows @ split_rows" utc twin_jobs] h f w
  show ?thesis by blast
qed

section \<open>The quantities of the events are not written\<close>

text \<open>
  Claim C8. The copies start with \<open>remaining\<close> equal to the quantity of their event, and
  the loop writes only the field \<open>remaining\<close> of the copies: when it has run, every copy
  still holds the fields of the event it was made from, \<open>quantity\<close> among them
  (\<open>job.truncate\<close> is a copy without its field \<open>remaining\<close>). The events themselves are
  values that the loop does not write.
\<close>

theorem copies_keep_event_fields:
  "map remaining (onJobs (init_state g))
     = map job.quantity (filter (\<lambda>j. job.state j = ''ON'') (sort_key job.createdAt g))
   \<and> map remaining (offJobs (init_state g))
     = map job.quantity (filter (\<lambda>j. job.state j = ''OFF'') (sort_key job.createdAt g))
   \<and> (pair_loop tz (init_state g) = Inr (ex, s') \<longrightarrow>
        map job.truncate (onJobs s') = filter (\<lambda>j. job.state j = ''ON'') (sort_key job.createdAt g)
      \<and> map job.truncate (offJobs s') = filter (\<lambda>j. job.state j = ''OFF'') (sort_key job.createdAt g)
      \<and> map job.quantity (onJobs s')
          = map job.quantity (filter (\<lambda>j. job.state j = ''ON'') (sort_key job.createdAt g))
      \<and> map job.quantity (offJobs s')
          = map job.quantity (filter (\<lambda>j. job.state j = ''OFF'') (sort_key job.createdAt g)))"
proof -
  have r: "map remaining (onJobs (init_state g))
      = map job.quantity (filter (\<lambda>j. job.state j = ''ON'') (sort_key job.createdAt g))"
    "map remaining (offJobs (init_state g))
      = map job.quantity (filter (\<lambda>j. job.state j = ''OFF'') (sort_key job.createdAt g))"
    by (simp_all add: init_state_def Let_def comp_def with_remaining_simps)
  have i: "map job.truncate (onJobs (init_state g))
      = filter (\<lambda>j. job.state j = ''ON'') (sort_key job.createdAt g)"
    "map job.truncate (offJobs (init_state g))
      = filter (\<lambda>j. job.state j = ''OFF'') (sort_key job.createdAt g)"
    by (simp_all add: init_state_def Let_def comp_def with_remaining_simps)
  have q: "map job.quantity js = map job.quantity (map job.truncate js)" for js :: "pjob list"
    by (simp add: comp_def job.defs)
  have "map job.truncate (onJobs s') = filter (\<lambda>j. job.state j = ''ON'') (sort_key job.createdAt g)
      \<and> map job.truncate (offJobs s') = filter (\<lambda>j. job.state j = ''OFF'') (sort_key job.createdAt g)
      \<and> map job.quantity (onJobs s')
          = map job.quantity (filter (\<lambda>j. job.state j = ''ON'') (sort_key job.createdAt g))
      \<and> map job.quantity (offJobs s')
          = map job.quantity (filter (\<lambda>j. job.state j = ''OFF'') (sort_key job.createdAt g))"
    if "pair_loop tz (init_state g) = Inr (ex, s')"
    using pair_loop_truncate [OF that] i by (simp add: q)
  with r show ?thesis by blast
qed

theorem copies_keep_event_fields_witness:
  "\<exists>ex s'. pair_loop utc (init_state split_group) = Inr (ex, s')
     \<and> map job.quantity (onJobs s') = [Some 10] \<and> map remaining (onJobs s') = [Some 0]
     \<and> map job.quantity (offJobs s') = [Some 4, Some 6]
     \<and> map remaining (offJobs s') = [Some 0, Some 0]"
proof -
  have ev: "case pair_loop utc (init_state split_group) of
      Inr (ex, s') \<Rightarrow> map remaining (onJobs s') = [Some 0]
        \<and> map remaining (offJobs s') = [Some 0, Some 0]
    | Inl e \<Rightarrow> False"
    by code_simp
  then obtain ex s' where lp: "pair_loop utc (init_state split_group) = Inr (ex, s')"
    and rm: "map remaining (onJobs s') = [Some 0]" "map remaining (offJobs s') = [Some 0, Some 0]"
    by (auto split: sum.splits)
  have q: "map job.quantity (filter (\<lambda>j. job.state j = ''ON'') (sort_key job.createdAt split_group))
      = [Some 10]"
    "map job.quantity (filter (\<lambda>j. job.state j = ''OFF'') (sort_key job.createdAt split_group))
      = [Some 4, Some 6]"
    by code_simp+
  from copies_keep_event_fields [of split_group utc ex s'] q lp rm show ?thesis by simp
qed

section \<open>Negative total time\<close>

text \<open>
  Claim C9. When the close time of the OFF job (\<open>updatedAt\<close>, else \<open>createdAt\<close>), cut to
  the minute, is before the creation time of the ON job, cut to the minute, the total
  time of the row of the pair is the rounded difference in minutes, a negative integer.
  The total time is the empty string exactly when the rounded difference is zero.
\<close>

theorem negative_total_time:
  assumes "matched_row tz onJob offJob q = Inr r"
  shows "(setSeconds0 (closeTime offJob) < setSeconds0 (job.createdAt onJob) \<longrightarrow>
      (\<exists>n. totalTime r = Some n \<and> n < 0
         \<and> n = roundMinutes (setSeconds0 (closeTime offJob) - setSeconds0 (job.createdAt onJob))
         \<and> n * 60000 = setSeconds0 (closeTime offJob) - setSeconds0 (job.createdAt onJob)))
    \<and> (totalTime r = None \<longleftrightarrow>
         roundMinutes (setSeconds0 (closeTime offJob) - setSeconds0 (job.createdAt onJob)) = 0)"
proof -
  let ?d = "setSeconds0 (closeTime offJob) - setSeconds0 (job.createdAt onJob)"
  from assms have t: "totalTime r = (if roundMinutes ?d \<noteq> 0 then Some (roundMinutes ?d) else None)"
    by (auto simp: matched_row_def Let_def split: option.splits)
  have m: "roundMinutes ?d * 60000 = ?d"
    by (simp add: roundMinutes_whole) (simp add: setSeconds0_minutes algebra_simps)
  have "roundMinutes ?d < 0" if "?d < 0"
    using m that by (smt (verit) mult_nonneg_nonneg)
  with t m show ?thesis by auto
qed

theorem negative_total_time_witness:
  "\<exists>r. matched_row utc (with_remaining (example_job ''ON'' (Some 5) 1704099600000 None))
          (with_remaining (example_job ''OFF'' (Some 5) 1704096000000 None)) 5 = Inr r
     \<and> totalTime r = Some (- 60)
     \<and> reconcile_group utc late_on_group = Inr [r]"
proof -
  let ?on = "with_remaining (example_job ''ON'' (Some 5) 1704099600000 None)"
  let ?off = "with_remaining (example_job ''OFF'' (Some 5) 1704096000000 None)"
  have lt: "setSeconds0 (closeTime ?off) < setSeconds0 (job.createdAt ?on)" by code_simp
  have d: "roundMinutes (setSeconds0 (closeTime ?off) - setSeconds0 (job.createdAt ?on)) = - 60"
    by code_simp
  have ev: "case matched_row utc ?on ?off 5 of
      Inr r \<Rightarrow> reconcile_group utc late_on_group = Inr [r] | Inl e \<Rightarrow> False"
    by code_simp
  then obtain r where r: "matched_row utc ?on ?off 5 = Inr r"
    "reconcile_group utc late_on_group = Inr [r]"
    by (auto split: sum.splits)
  from negative_total_time [OF r(1)] lt d have "totalTime r = Some (- 60)" by auto
  with r show ?thesis by blast
qed

section \<open>The quantity of a fallback row\<close>

text \<open>
  Claim C10. The quantity of the fallback row of a job is the quantity of the job when
  that is a number other than zero, and 1 otherwise (quantity 0 or no quantity). So the
  quantities of the fallback rows can exceed those of the jobs: for the one job
  \<open>orphan_job\<close> of quantity 0 the worksheet holds a fallback row of quantity 1.
\<close>

theorem fallback_quantity:
  "row.quantity (fallback_row tz j) =
     (case job.quantity j of Some q \<Rightarrow> if q \<noteq> 0 then q else 1 | None \<Rightarrow> 1)
   \<and> worksheet utc [orphan_job] = Inr [Data (fallback_row utc orphan_job), Blank, Total 0]
   \<and> job.quantity orphan_job = Some 0
   \<and> row.quantity (fallback_row utc orphan_job) = 1"
proof -
  have "worksheet utc [orphan_job] = Inr [Data (fallback_row utc orphan_job), Blank, Total 0]"
    by code_simp
  moreover have "job.quantity orphan_job = Some 0" by code_simp
  ultimately show ?thesis
    by (simp add: fallback_row_def truthy_or_def split: option.splits)
qed

end
